theory Spec2Isabelle
  imports Complex_Main
begin

section \<open>Data model\<close>

text \<open>
  The snake game keeps every position as a pair of pixel coordinates on a grid of
  \<open>SIZE\<close>-pixel cells. Python's unbounded integers are \<open>int\<close>; the direction strings
  \<open>'left'\<close>, \<open>'right'\<close>, \<open>'up'\<close>, \<open>'down'\<close> are the only values the field
  \<open>direction\<close> ever takes and are modelled as a datatype.
\<close>

definition SIZE :: int where
  "SIZE = 40"

datatype direction = Left | Right | Up | Down

datatype py_error = IndexError | KeyError | NameError

type_synonym cell = "int \<times> int"

text \<open>Class \<open>Snake\<close>: fields \<open>direction\<close>, \<open>length\<close>, \<open>x\<close>, \<open>y\<close>.\<close>

record snake =
  snake_direction :: direction
  snake_length :: nat
  snake_x :: "int list"
  snake_y :: "int list"

text \<open>\<open>Snake.__init__\<close>: one block at (40, 40), heading down.\<close>

definition snake_init :: snake where
  "snake_init = \<lparr>snake_direction = Down, snake_length = 1, snake_x = [40], snake_y = [40]\<rparr>"

text \<open>
  The representation invariant every method of \<open>Snake\<close> maintains:
  \<open>len(x) == len(y) == length\<close>.
\<close>

definition consistent :: "snake \<Rightarrow> bool" where
  "consistent s \<longleftrightarrow>
     length (snake_x s) = snake_length s \<and> length (snake_y s) = snake_length s"

text \<open>The four turn requests; each ignores the reverse of the current direction.\<close>

definition move_left :: "snake \<Rightarrow> snake" where
  "move_left s = (if snake_direction s \<noteq> Right then s\<lparr>snake_direction := Left\<rparr> else s)"

definition move_right :: "snake \<Rightarrow> snake" where
  "move_right s = (if snake_direction s \<noteq> Left then s\<lparr>snake_direction := Right\<rparr> else s)"

definition move_up :: "snake \<Rightarrow> snake" where
  "move_up s = (if snake_direction s \<noteq> Down then s\<lparr>snake_direction := Up\<rparr> else s)"

definition move_down :: "snake \<Rightarrow> snake" where
  "move_down s = (if snake_direction s \<noteq> Up then s\<lparr>snake_direction := Down\<rparr> else s)"

text \<open>
  The dispatch \<open>if d == 'left': move_left() elif ...\<close> that every agent and the key
  handler use to turn a direction name into a turn request.
\<close>

fun turn :: "direction \<Rightarrow> snake \<Rightarrow> snake" where
  "turn Left s = move_left s"
| "turn Right s = move_right s"
| "turn Up s = move_up s"
| "turn Down s = move_down s"

text \<open>
  \<open>Snake.walk\<close>. The loop \<open>for i in range(length - 1, 0, -1): x[i] = x[i-1]; y[i] = y[i-1]\<close>
  runs from the tail towards the head; an index outside either list raises
  \<open>IndexError\<close>. \<open>shift_segments n\<close> is the loop from \<open>i = n\<close> down to \<open>1\<close>.
\<close>

fun shift_segments :: "nat \<Rightarrow> int list \<times> int list \<Rightarrow> py_error + (int list \<times> int list)" where
  "shift_segments 0 (xs, ys) = Inr (xs, ys)"
| "shift_segments (Suc i) (xs, ys) =
     (if Suc i < length xs \<and> Suc i < length ys
      then shift_segments i (xs[Suc i := xs ! i], ys[Suc i := ys ! i])
      else Inl IndexError)"

text \<open>The head update \<open>self.x[0] -= SIZE\<close> and its three siblings.\<close>

fun advance_head :: "direction \<Rightarrow> int list \<times> int list \<Rightarrow> py_error + (int list \<times> int list)" where
  "advance_head Left (xs, ys) = (if xs = [] then Inl IndexError else Inr (xs[0 := xs ! 0 - SIZE], ys))"
| "advance_head Right (xs, ys) = (if xs = [] then Inl IndexError else Inr (xs[0 := xs ! 0 + SIZE], ys))"
| "advance_head Up (xs, ys) = (if ys = [] then Inl IndexError else Inr (xs, ys[0 := ys ! 0 - SIZE]))"
| "advance_head Down (xs, ys) = (if ys = [] then Inl IndexError else Inr (xs, ys[0 := ys ! 0 + SIZE]))"

definition walk :: "snake \<Rightarrow> py_error + snake" where
  "walk s =
     (case shift_segments (snake_length s - 1) (snake_x s, snake_y s) of
        Inl e \<Rightarrow> Inl e
      | Inr body \<Rightarrow>
          (case advance_head (snake_direction s) body of
             Inl e \<Rightarrow> Inl e
           | Inr (xs, ys) \<Rightarrow> Inr (s\<lparr>snake_x := xs, snake_y := ys\<rparr>)))"

text \<open>\<open>Snake.increase_length\<close>: one more segment at the placeholder position (-1, -1).\<close>

definition increase_length :: "snake \<Rightarrow> snake" where
  "increase_length s =
     s\<lparr>snake_length := snake_length s + 1,
       snake_x := snake_x s @ [-1],
       snake_y := snake_y s @ [-1]\<rparr>"

text \<open>The unit step of a direction, as \<open>direction_moves\<close> and \<open>_get_potential_head\<close> have it.\<close>

fun delta :: "direction \<Rightarrow> cell" where
  "delta Left = (- SIZE, 0)"
| "delta Right = (SIZE, 0)"
| "delta Up = (0, - SIZE)"
| "delta Down = (0, SIZE)"

section \<open>Game state and the collision model\<close>

text \<open>
  Class \<open>Game\<close>, as far as the decision code reads it: the surface's width and height
  (\<open>self.surface.get_width()\<close>, \<open>get_height()\<close>; \<open>Game.__init__\<close> always opens a
  1000 x 800 surface), the snake and the apple's position.
\<close>

record game =
  screen_width :: int
  screen_height :: int
  game_snake :: snake
  apple_x :: int
  apple_y :: int

text \<open>\<open>Game.is_collision\<close>: a point against a \<open>SIZE\<close>-square box.\<close>

definition is_collision :: "int \<Rightarrow> int \<Rightarrow> int \<Rightarrow> int \<Rightarrow> bool" where
  "is_collision x1 y1 x2 y2 \<longleftrightarrow> x1 \<ge> x2 \<and> x1 < x2 + SIZE \<and> y1 \<ge> y2 \<and> y1 < y2 + SIZE"

text \<open>
  The scan \<open>for i in range(a, b): if is_collision(px, py, x[i], y[i]): return True\<close>
  that the collision checks share. All callers keep \<open>b \<le> length\<close>, so on a consistent
  snake every index is in range.
\<close>

definition body_hit :: "snake \<Rightarrow> nat \<Rightarrow> nat \<Rightarrow> int \<Rightarrow> int \<Rightarrow> bool" where
  "body_hit s a b px py \<longleftrightarrow>
     list_ex (\<lambda>i. is_collision px py (snake_x s ! i) (snake_y s ! i)) [a..<b]"

text \<open>\<open>Game.self_collision\<close> (ai.py, allagents.py, simplereflex.py, reflexagent.py): from index 3.\<close>

definition self_collision :: "snake \<Rightarrow> bool" where
  "self_collision s \<longleftrightarrow> body_hit s 3 (snake_length s) (snake_x s ! 0) (snake_y s ! 0)"

text \<open>
  \<open>Game.check_wall_collision\<close> (ai.py, allagents.py, simplereflex.py, reflexagent.py).
  \<open>Game.play\<close> ends the game after \<open>walk\<close> when this or \<open>self_collision\<close> holds.
\<close>

definition check_wall_collision :: "game \<Rightarrow> bool" where
  "check_wall_collision g \<longleftrightarrow>
     snake_x (game_snake g) ! 0 < 0 \<or> snake_x (game_snake g) ! 0 \<ge> screen_width g \<or>
     snake_y (game_snake g) ! 0 < 0 \<or> snake_y (game_snake g) ! 0 \<ge> screen_height g"

text \<open>\<open>Game._get_potential_head\<close>.\<close>

definition get_potential_head :: "game \<Rightarrow> direction \<Rightarrow> cell" where
  "get_potential_head g d =
     (snake_x (game_snake g) ! 0 + fst (delta d), snake_y (game_snake g) ! 0 + snd (delta d))"

text \<open>\<open>Game._is_potential_move_colliding\<close> (ai.py, allagents.py, reflexagent.py).\<close>

definition in_bounds :: "game \<Rightarrow> cell \<Rightarrow> bool" where
  "in_bounds g c \<longleftrightarrow>
     0 \<le> fst c \<and> fst c < screen_width g \<and> 0 \<le> snd c \<and> snd c < screen_height g"

definition is_potential_move_colliding :: "game \<Rightarrow> cell \<Rightarrow> bool" where
  "is_potential_move_colliding g c \<longleftrightarrow>
     (if \<not> in_bounds g c then True
      else body_hit (game_snake g) 1 (snake_length (game_snake g)) (fst c) (snd c))"

text \<open>The reversal test every agent writes out as four string comparisons.\<close>

fun opposite :: "direction \<Rightarrow> direction" where
  "opposite Left = Right"
| "opposite Right = Left"
| "opposite Up = Down"
| "opposite Down = Up"

text \<open>\<open>Game._calculate_manhattan_distance\<close> (allagents.py), in grid cells.\<close>

definition calculate_manhattan_distance :: "int \<Rightarrow> int \<Rightarrow> int \<Rightarrow> int \<Rightarrow> int" where
  "calculate_manhattan_distance x1 y1 x2 y2 = \<bar>x2 - x1\<bar> div SIZE + \<bar>y2 - y1\<bar> div SIZE"

section \<open>Ticks of the game loop\<close>

text \<open>
  The snake operations a caller can issue, for the states reachable by any interleaving
  of them.
\<close>

datatype snake_op = Turn direction | Grow | Walk

fun apply_op :: "snake_op \<Rightarrow> snake \<Rightarrow> py_error + snake" where
  "apply_op (Turn d) s = Inr (turn d s)"
| "apply_op Grow s = Inr (increase_length s)"
| "apply_op Walk s = walk s"

fun run_ops :: "snake_op list \<Rightarrow> snake \<Rightarrow> py_error + snake" where
  "run_ops [] s = Inr s"
| "run_ops (opn # ops) s =
     (case apply_op opn s of Inl e \<Rightarrow> Inl e | Inr s' \<Rightarrow> run_ops ops s')"

text \<open>
  One tick as \<open>Game.run\<close> and \<open>Game.play\<close> order it when a single direction producer
  acts: at most one turn request, then \<open>walk\<close>, then \<open>increase_length\<close> when the apple
  was eaten.
\<close>

fun tick :: "direction option \<times> bool \<Rightarrow> snake \<Rightarrow> py_error + snake" where
  "tick (req, ate) s =
     (case walk (case req of None \<Rightarrow> s | Some d \<Rightarrow> turn d s) of
        Inl e \<Rightarrow> Inl e
      | Inr s' \<Rightarrow> Inr (if ate then increase_length s' else s'))"

fun run_ticks :: "(direction option \<times> bool) list \<Rightarrow> snake \<Rightarrow> py_error + snake" where
  "run_ticks [] s = Inr s"
| "run_ticks (t # ts) s =
     (case tick t s of Inl e \<Rightarrow> Inl e | Inr s' \<Rightarrow> run_ticks ts s')"

section \<open>The Q-learning agent of learning.py\<close>

text \<open>
  Class \<open>QLearningAgent\<close>. Python floats are idealised as \<open>real\<close>: the claims about
  this agent concern which formula is computed and in which order of magnitude, not
  rounding. A state is the tuple \<open>(apple_rel_x_disc, apple_rel_y_disc, dangers,
  current_direction)\<close> with \<open>dangers = (up, down, left, right)\<close> and the direction
  coded 0..3; the table maps a state to its list of four action values.
\<close>

type_synonym dangers = "int \<times> int \<times> int \<times> int"

type_synonym qstate = "int \<times> int \<times> dangers \<times> nat"

record qlearning_agent =
  qa_learning_rate :: real
  qa_discount_factor :: real
  qa_epsilon :: real
  qa_epsilon_decay :: real
  qa_epsilon_min :: real
  qa_q_table :: "qstate \<rightharpoonup> real list"

text \<open>\<open>self.actions = ['up', 'down', 'left', 'right']\<close>, \<open>self.n_actions = 4\<close>.\<close>

definition QLearningAgent_actions :: "direction list" where
  "QLearningAgent_actions = [Up, Down, Left, Right]"

definition n_actions :: nat where
  "n_actions = length QLearningAgent_actions"

text \<open>\<open>direction_map_rev = {0: 'up', 1: 'down', 2: 'left', 3: 'right'}\<close>; a missing key raises.\<close>

definition direction_map_rev :: "nat \<rightharpoonup> direction" where
  "direction_map_rev = map_of [(0, Up), (1, Down), (2, Left), (3, Right)]"

fun dangers_list :: "dangers \<Rightarrow> int list" where
  "dangers_list (a, b, c, d) = [a, b, c, d]"

definition is_u_turn :: "direction \<Rightarrow> direction \<Rightarrow> bool" where
  "is_u_turn cur a \<longleftrightarrow>
     (cur = Up \<and> a = Down) \<or> (cur = Down \<and> a = Up) \<or>
     (cur = Left \<and> a = Right) \<or> (cur = Right \<and> a = Left)"

text \<open>\<open>QLearningAgent.get_valid_actions_for_state\<close>.\<close>

fun get_valid_actions_for_state :: "qstate \<Rightarrow> py_error + nat list" where
  "get_valid_actions_for_state (ax, ay, dangers_from_state, current_direction_int) =
     (case direction_map_rev current_direction_int of
        None \<Rightarrow> Inl KeyError
      | Some cur \<Rightarrow>
          Inr (filter (\<lambda>i. \<not> is_u_turn cur (QLearningAgent_actions ! i) \<and>
                            dangers_list dangers_from_state ! i = 0)
                 [0..<n_actions]))"

text \<open>
  Python's \<open>max\<close> of a non-empty list; the only call is guarded by
  \<open>if next_state_valid_actions\<close>.
\<close>

fun py_max :: "real list \<Rightarrow> real" where
  "py_max [v] = v"
| "py_max (v # w # vs) = max v (py_max (w # vs))"

text \<open>
  \<open>QLearningAgent.update_q_table\<close>. Both rows are created on demand; \<open>row[action]\<close>
  raises on an index outside the row.
\<close>

definition QLearningAgent_update_q_table ::
  "qlearning_agent \<Rightarrow> qstate \<Rightarrow> nat \<Rightarrow> real \<Rightarrow> qstate \<Rightarrow> bool \<Rightarrow> py_error + qlearning_agent" where
  "QLearningAgent_update_q_table agent state action reward next_state done =
     (let q1 = (if qa_q_table agent state = None
                then (qa_q_table agent)(state \<mapsto> replicate n_actions 0)
                else qa_q_table agent);
          q2 = (if q1 next_state = None
                then q1(next_state \<mapsto> replicate n_actions 0)
                else q1);
          row = the (q2 state);
          next_row = the (q2 next_state)
      in if length row \<le> action then Inl IndexError
         else
           let current_q = row ! action in
           case (if done then Inr reward
                 else
                   (case get_valid_actions_for_state next_state of
                      Inl e \<Rightarrow> Inl e
                    | Inr next_state_valid_actions \<Rightarrow>
                        if list_ex (\<lambda>i. length next_row \<le> i) next_state_valid_actions
                        then Inl IndexError
                        else
                          Inr (reward + qa_discount_factor agent *
                                 (if next_state_valid_actions \<noteq> []
                                  then py_max (map (\<lambda>i. next_row ! i) next_state_valid_actions)
                                  else 0)))) of
             Inl e \<Rightarrow> Inl e
           | Inr target_q \<Rightarrow>
               Inr (agent\<lparr>qa_q_table :=
                      q2(state \<mapsto> row[action := current_q +
                                     qa_learning_rate agent * (target_q - current_q)])\<rparr>))"

text \<open>\<open>QLearningAgent.get_reward\<close>; the shaping branch reads the game and \<open>actions[action]\<close>.\<close>

definition QLearningAgent_get_reward ::
  "game \<Rightarrow> qstate \<Rightarrow> nat \<Rightarrow> qstate \<Rightarrow> bool \<Rightarrow> bool \<Rightarrow> py_error + int" where
  "QLearningAgent_get_reward g old_state action new_state game_over ate_apple =
     (if game_over then Inr (- 500)
      else if ate_apple then Inr 1000
      else if n_actions \<le> action then Inl IndexError
      else
        let hx = snake_x (game_snake g) ! 0; hy = snake_y (game_snake g) ! 0;
            old_dist_sq = (hx - apple_x g)\<^sup>2 + (hy - apple_y g)\<^sup>2;
            new_head = get_potential_head g (QLearningAgent_actions ! action);
            new_dist_sq = (fst new_head - apple_x g)\<^sup>2 + (snd new_head - apple_y g)\<^sup>2
        in Inr (if new_dist_sq < old_dist_sq then 10
                else if new_dist_sq > old_dist_sq then - 15
                else - 5))"

text \<open>
  The last statement of \<open>QLearningAgent.train_episode\<close>, run once per episode:
  \<open>if self.epsilon > self.epsilon_min: self.epsilon *= self.epsilon_decay\<close>.
\<close>

definition train_episode_decay :: "qlearning_agent \<Rightarrow> qlearning_agent" where
  "train_episode_decay agent =
     (if qa_epsilon agent > qa_epsilon_min agent
      then agent\<lparr>qa_epsilon := qa_epsilon agent * qa_epsilon_decay agent\<rparr>
      else agent)"

section \<open>The Q-learning code of simplereflex.py\<close>

text \<open>
  \<open>Game._get_state\<close> returns \<open>(apple_left, apple_right, apple_up, apple_down,
  danger_left, danger_right, danger_up, danger_down, direction)\<close>; the table is keyed by
  \<open>(state, action)\<close> and read with \<open>.get(key, 0)\<close>.
\<close>

type_synonym sr_state = "bool \<times> bool \<times> bool \<times> bool \<times> bool \<times> bool \<times> bool \<times> bool \<times> direction"

definition sr_get :: "((sr_state \<times> direction) \<rightharpoonup> real) \<Rightarrow> sr_state \<times> direction \<Rightarrow> real" where
  "sr_get q k = (case q k of None \<Rightarrow> 0 | Some v \<Rightarrow> v)"

text \<open>
  \<open>Game._update_q_table(state, action, reward, next_state=None, terminal=False)\<close>, with
  \<open>self.alpha\<close> and \<open>self.gamma\<close> as parameters. No key of the table has \<open>None\<close> as its
  state, so the look-ups for an omitted \<open>next_state\<close> return the default.
\<close>

definition simplereflex_update_q_table ::
  "real \<Rightarrow> real \<Rightarrow> ((sr_state \<times> direction) \<rightharpoonup> real) \<Rightarrow> sr_state \<Rightarrow> direction \<Rightarrow> real \<Rightarrow>
   sr_state option \<Rightarrow> bool \<Rightarrow> ((sr_state \<times> direction) \<rightharpoonup> real)" where
  "simplereflex_update_q_table alpha gamma q state action reward next_state terminal =
     (let old_q = sr_get q (state, action);
          new_q =
            (if terminal then reward
             else
               let future_qs =
                     map (\<lambda>a. case next_state of None \<Rightarrow> 0 | Some ns \<Rightarrow> sr_get q (ns, a))
                       [Left, Right, Up, Down];
                   max_future_q = py_max future_qs
               in old_q + alpha * (reward + gamma * max_future_q - old_q))
      in q((state, action) \<mapsto> new_q))"

section \<open>The learning agent of allagents.py\<close>

text \<open>
  Class \<open>LearningAgent\<close>. \<open>get_state\<close> returns the 6-tuple \<open>(apple_dx, apple_dy,
  dangers, length_category, tail_distance_discrete, wall_distance_discrete)\<close> with
  \<open>dangers\<close> in the order left, right, up, down; actions are the indices into
  \<open>['left', 'right', 'up', 'down']\<close>. The table is keyed by \<open>(state, action)\<close>, where
  \<open>last_action\<close> may still be \<open>None\<close>. The entries \<open>pretrain_q_table\<close> stores have
  5-tuples as states, which no look-up with a state of \<open>get_state\<close> finds; they are
  left out.
\<close>

type_synonym la_state = "int \<times> int \<times> dangers \<times> int \<times> int \<times> int"

record learning_agent =
  la_q_table :: "(la_state \<times> nat option) \<rightharpoonup> real"
  la_learning_rate :: real
  la_discount_factor :: real
  la_epsilon :: real
  la_epsilon_decay :: real
  la_min_epsilon :: real
  la_last_state :: "la_state option"
  la_last_action :: "nat option"
  la_last_score :: int
  la_episodes :: nat

definition LearningAgent_actions :: "direction list" where
  "LearningAgent_actions = [Left, Right, Up, Down]"

definition min_wall_cells :: "game \<Rightarrow> int \<Rightarrow> int \<Rightarrow> int" where
  "min_wall_cells g px py =
     min px (min (screen_width g - px) (min py (screen_height g - py))) div SIZE"

definition LearningAgent_get_state :: "game \<Rightarrow> la_state" where
  "LearningAgent_get_state g =
     (let s = game_snake g;
          head_x = snake_x s ! 0; head_y = snake_y s ! 0;
          tail_x = last (snake_x s); tail_y = last (snake_y s);
          apple_dx = (if apple_x g > head_x then 1 else if apple_x g < head_x then - 1 else 0);
          apple_dy = (if apple_y g > head_y then 1 else if apple_y g < head_y then - 1 else 0);
          tail_distance = calculate_manhattan_distance head_x head_y tail_x tail_y;
          tail_distance_discrete = min (tail_distance div SIZE) 3;
          wall_distance_discrete = min (min_wall_cells g head_x head_y) 3;
          danger = (\<lambda>d. if is_potential_move_colliding g (get_potential_head g d)
                         then 1 else 0);
          length_category = min (int (snake_length s) div 5) 3
      in (apple_dx, apple_dy, (danger Left, danger Right, danger Up, danger Down),
          length_category, tail_distance_discrete, wall_distance_discrete))"

definition LearningAgent_get_q_value :: "learning_agent \<Rightarrow> la_state \<Rightarrow> nat option \<Rightarrow> real" where
  "LearningAgent_get_q_value agent state action =
     (case la_q_table agent (state, action) of None \<Rightarrow> 0 | Some v \<Rightarrow> v)"

text \<open>The action list with the reversal of the current direction removed.\<close>

fun non_reversal_actions :: "direction \<Rightarrow> nat list" where
  "non_reversal_actions Left = remove1 1 [0, 1, 2, 3]"
| "non_reversal_actions Right = remove1 0 [0, 1, 2, 3]"
| "non_reversal_actions Up = remove1 3 [0, 1, 2, 3]"
| "non_reversal_actions Down = remove1 2 [0, 1, 2, 3]"

text \<open>
  The scan \<open>best = xs[0]; for a in xs[1:]: if f(a) > f(best): best = a\<close> of the agents
  in allagents.py; the score kept beside \<open>best\<close> is always \<open>f(best)\<close>.
\<close>

fun best_by :: "('a \<Rightarrow> 'b::linorder) \<Rightarrow> 'a \<Rightarrow> 'a list \<Rightarrow> 'a" where
  "best_by f best [] = best"
| "best_by f best (a # as) = best_by f (if f a > f best then a else best) as"

definition LearningAgent_get_best_action :: "learning_agent \<Rightarrow> game \<Rightarrow> la_state \<Rightarrow> nat" where
  "LearningAgent_get_best_action agent g state =
     (case non_reversal_actions (snake_direction (game_snake g)) of
        [] \<Rightarrow> 0
      | a # as \<Rightarrow> best_by (\<lambda>a. LearningAgent_get_q_value agent state (Some a)) a as)"

text \<open>
  \<open>LearningAgent.choose_action\<close>. The two random draws are arguments: \<open>rnd\<close> is the
  value of \<open>random.random()\<close> and \<open>pick\<close> the index \<open>random.choice\<close> selects.
\<close>

definition LearningAgent_choose_action ::
  "learning_agent \<Rightarrow> game \<Rightarrow> la_state \<Rightarrow> real \<Rightarrow> nat \<Rightarrow> nat" where
  "LearningAgent_choose_action agent g state rnd pick =
     (if rnd < la_epsilon agent
      then (case non_reversal_actions (snake_direction (game_snake g)) of
              [] \<Rightarrow> 0
            | a # as \<Rightarrow> (a # as) ! (pick mod length (a # as)))
      else LearningAgent_get_best_action agent g state)"

text \<open>\<open>LearningAgent.get_reward\<close>; it also stores the score in \<open>last_score\<close>.\<close>

definition LearningAgent_get_reward :: "learning_agent \<Rightarrow> game \<Rightarrow> real \<times> learning_agent" where
  "LearningAgent_get_reward agent g =
     (let s = game_snake g;
          current_score = int (snake_length s) - 1;
          reward0 = (if current_score > la_last_score agent then 100 else - 1);
          head_x = snake_x s ! 0; head_y = snake_y s ! 0;
          distance = calculate_manhattan_distance head_x head_y (apple_x g) (apple_y g);
          reward1 = reward0 + max 0 (2 - real_of_int distance * 0.5);
          reward2 = (if min_wall_cells g head_x head_y < 2 then reward1 - 5 else reward1);
          reward3 =
            (if snake_length s > 5
             then
               let tail_distance =
                     calculate_manhattan_distance head_x head_y (last (snake_x s)) (last (snake_y s))
               in if tail_distance < 3 then reward2 - 5 else reward2
             else reward2)
      in (reward3, agent\<lparr>la_last_score := current_score\<rparr>))"

text \<open>
  \<open>LearningAgent.update_q_table(self, old_state, action, reward, new_state)\<close>. Its last
  statement stores under the key \<open>(state, action)\<close>. The function binds the names
  \<open>self\<close>, \<open>old_state\<close>, \<open>action\<close>, \<open>reward\<close>, \<open>new_state\<close>, \<open>old_q_value\<close>,
  \<open>future_q_value\<close> and \<open>new_q_value\<close> only, so \<open>state\<close> is looked up among the
  module's global and builtin names, given here as \<open>env\<close>; a name that is not bound
  raises \<open>NameError\<close>.
\<close>

definition lookup_name :: "(string \<rightharpoonup> 'v) \<Rightarrow> string \<Rightarrow> py_error + 'v" where
  "lookup_name env name = (case env name of None \<Rightarrow> Inl NameError | Some v \<Rightarrow> Inr v)"

definition LearningAgent_update_q_table ::
  "(string \<rightharpoonup> la_state) \<Rightarrow> learning_agent \<Rightarrow> la_state \<Rightarrow> nat option \<Rightarrow> real \<Rightarrow> la_state \<Rightarrow>
   py_error + learning_agent" where
  "LearningAgent_update_q_table env agent old_state action reward new_state =
     (let old_q_value = LearningAgent_get_q_value agent old_state action;
          future_q_value =
            py_max (map (\<lambda>a. LearningAgent_get_q_value agent new_state (Some a)) [0, 1, 2, 3]);
          new_q_value = old_q_value + la_learning_rate agent *
            (reward + la_discount_factor agent * future_q_value - old_q_value)
      in case lookup_name env ''state'' of
           Inl e \<Rightarrow> Inl e
         | Inr state \<Rightarrow> Inr (agent\<lparr>la_q_table := (la_q_table agent)((state, action) \<mapsto> new_q_value)\<rparr>))"

text \<open>\<open>LearningAgent.make_move\<close>; it returns the agent and the snake it has turned.\<close>

definition LearningAgent_make_move ::
  "(string \<rightharpoonup> la_state) \<Rightarrow> learning_agent \<Rightarrow> game \<Rightarrow> real \<Rightarrow> nat \<Rightarrow>
   py_error + (learning_agent \<times> game)" where
  "LearningAgent_make_move env agent g rnd pick =
     (let current_state = LearningAgent_get_state g;
          action = LearningAgent_choose_action agent g current_state rnd pick
      in case (case la_last_state agent of
                 None \<Rightarrow> Inr agent
               | Some last_state \<Rightarrow>
                   (let (reward, agent1) = LearningAgent_get_reward agent g
                    in LearningAgent_update_q_table env agent1 last_state (la_last_action agent1)
                         reward current_state)) of
           Inl e \<Rightarrow> Inl e
         | Inr agent2 \<Rightarrow>
             let direction = LearningAgent_actions ! action in
             case (if is_potential_move_colliding g (get_potential_head g direction)
                   then
                     (case (case la_last_state agent2 of
                              None \<Rightarrow> Inr agent2
                            | Some last_state \<Rightarrow>
                                LearningAgent_update_q_table env agent2 last_state
                                  (la_last_action agent2) (- 50) current_state) of
                        Inl e \<Rightarrow> Inl e
                      | Inr agent3 \<Rightarrow>
                          Inr (agent3,
                               (case find (\<lambda>d. \<not> is_potential_move_colliding g
                                                   (get_potential_head g d))
                                       LearningAgent_actions of
                                  None \<Rightarrow> game_snake g
                                | Some safe_direction \<Rightarrow> turn safe_direction (game_snake g))))
                   else Inr (agent2, turn direction (game_snake g))) of
               Inl e \<Rightarrow> Inl e
             | Inr (agent4, snake') \<Rightarrow>
                 Inr (agent4\<lparr>la_epsilon := max (la_min_epsilon agent4)
                                           (la_epsilon agent4 * la_epsilon_decay agent4),
                             la_last_state := Some current_state,
                             la_last_action := Some action\<rparr>,
                      g\<lparr>game_snake := snake'\<rparr>))"

section \<open>The utility-based agent of allagents.py\<close>

text \<open>Class \<open>UtilityBasedAgent\<close>; its only field besides the game is \<open>previous_direction\<close>.\<close>

record utility_agent =
  ua_previous_direction :: "direction option"

text \<open>\<open>count_escape_routes(x, y)\<close> ignores its arguments and looks around the current head.\<close>

definition count_escape_routes :: "game \<Rightarrow> int \<Rightarrow> int \<Rightarrow> int" where
  "count_escape_routes g px py =
     int (length (filter (\<lambda>d. \<not> is_potential_move_colliding g (get_potential_head g d))
                    [Left, Right, Up, Down]))"

definition calculate_utility :: "utility_agent \<Rightarrow> game \<Rightarrow> direction \<Rightarrow> int" where
  "calculate_utility agent g direction =
     (let next_x = fst (get_potential_head g direction);
          next_y = snd (get_potential_head g direction)
      in if is_potential_move_colliding g (next_x, next_y) then - 10000
         else
           let apple_distance =
                 calculate_manhattan_distance next_x next_y (apple_x g) (apple_y g);
               u1 = 0 - apple_distance * 20;
               u2 = u1 + count_escape_routes g next_x next_y * 10;
               u3 = u2 + min_wall_cells g next_x next_y * 3;
               u4 = (if Some direction = ua_previous_direction agent then u3 + 2 else u3);
               u5 = (if direction = snake_direction (game_snake g) then u4 + 5 else u4)
           in if snake_length (game_snake g) > 10
              then
                let tail_distance =
                      calculate_manhattan_distance next_x next_y
                        (last (snake_x (game_snake g))) (last (snake_y (game_snake g)))
                in if tail_distance < 3 then u5 - 20 else u5
              else u5)"

text \<open>
  \<open>UtilityBasedAgent.make_move\<close>: the reversal of the current direction is removed
  from the candidates, the first best candidate is requested, and remembered.
\<close>

definition UtilityBasedAgent_make_move :: "utility_agent \<Rightarrow> game \<Rightarrow> utility_agent \<times> game" where
  "UtilityBasedAgent_make_move agent g =
     (let directions = remove1 (opposite (snake_direction (game_snake g))) [Left, Right, Up, Down];
          best_direction = best_by (calculate_utility agent g) (hd directions) (tl directions)
      in (agent\<lparr>ua_previous_direction := Some best_direction\<rparr>,
          g\<lparr>game_snake := turn best_direction (game_snake g)\<rparr>))"

section \<open>Breadth-first search and flood fill of ai.py\<close>

text \<open>
  One grid step: \<open>next_x, next_y = x + dx, y + dy\<close> with \<open>(dx, dy)\<close> the entry of
  \<open>direction_moves\<close>, or the entry of the list \<open>[(-SIZE, 0), (SIZE, 0), (0, -SIZE), (0, SIZE)]\<close>,
  which are the moves of left, right, up and down in this order.
\<close>

definition step :: "cell \<Rightarrow> direction \<Rightarrow> cell" where
  "step c d = (fst c + fst (delta d), snd c + snd (delta d))"

definition directions :: "direction list" where
  "directions = [Left, Right, Up, Down]"

text \<open>
  \<open>Game._count_available_space(start_x, start_y, max_depth=8)\<close>. A queue entry is
  \<open>(x, y, depth)\<close>. \<open>fill_neighbours\<close> is the \<open>for dx, dy in directions\<close> loop: a
  neighbour is skipped when visited, out of bounds, or inside the box of any snake
  segment, the head included.
\<close>

type_synonym fill_entry = "int \<times> int \<times> nat"

fun fill_neighbours ::
  "game \<Rightarrow> int \<Rightarrow> int \<Rightarrow> nat \<Rightarrow> direction list \<Rightarrow> fill_entry list \<times> cell set \<Rightarrow>
   fill_entry list \<times> cell set" where
  "fill_neighbours g x y depth [] (queue, visited) = (queue, visited)"
| "fill_neighbours g x y depth (d # ds) (queue, visited) =
     (let nxt = step (x, y) d in
      if nxt \<in> visited then fill_neighbours g x y depth ds (queue, visited)
      else if \<not> in_bounds g nxt then fill_neighbours g x y depth ds (queue, visited)
      else if body_hit (game_snake g) 0 (snake_length (game_snake g)) (fst nxt) (snd nxt)
      then fill_neighbours g x y depth ds (queue, visited)
      else fill_neighbours g x y depth ds
             (queue @ [(fst nxt, snd nxt, depth + 1)], insert nxt visited))"

text \<open>
  \<open>Game._bfs_pathfind\<close>. A queue entry is \<open>(x, y, first_direction, depth)\<close>.
  \<open>bfs_neighbours\<close> is the \<open>for direction in directions\<close> loop; here the body scan
  starts at segment 1.
\<close>

type_synonym bfs_entry = "int \<times> int \<times> direction \<times> nat"

definition bfs_max_depth :: nat where
  "bfs_max_depth = 15"

fun bfs_neighbours ::
  "game \<Rightarrow> int \<Rightarrow> int \<Rightarrow> direction \<Rightarrow> nat \<Rightarrow> direction list \<Rightarrow> bfs_entry list \<times> cell set \<Rightarrow>
   bfs_entry list \<times> cell set" where
  "bfs_neighbours g current_x current_y first_direction depth [] (queue, visited) =
     (queue, visited)"
| "bfs_neighbours g current_x current_y first_direction depth (d # ds) (queue, visited) =
     (let nxt = step (current_x, current_y) d in
      if nxt \<in> visited
      then bfs_neighbours g current_x current_y first_direction depth ds (queue, visited)
      else if \<not> in_bounds g nxt
      then bfs_neighbours g current_x current_y first_direction depth ds (queue, visited)
      else if body_hit (game_snake g) 1 (snake_length (game_snake g)) (fst nxt) (snd nxt)
      then bfs_neighbours g current_x current_y first_direction depth ds (queue, visited)
      else bfs_neighbours g current_x current_y first_direction depth ds
             (queue @ [(fst nxt, snd nxt, first_direction, depth + 1)], insert nxt visited))"

text \<open>
  Both loops add only cells inside the bounds that were not visited, and they add a
  cell to the queue exactly when they add it to the visited set. This is what makes the
  \<open>while queue\<close> loops terminate.
\<close>

lemma finite_in_bounds: "finite {c. in_bounds g c}"
proof -
  have "{c. in_bounds g c} \<subseteq> {0..<screen_width g} \<times> {0..<screen_height g}"
    by (auto simp: in_bounds_def)
  then show ?thesis by (rule finite_subset) simp
qed

lemma fill_neighbours_measure:
  "fill_neighbours g x y depth ds (queue, visited) = (queue', visited') \<Longrightarrow>
   (queue' = queue \<and> visited' = visited) \<or>
   card ({c. in_bounds g c} - visited') < card ({c. in_bounds g c} - visited)"
proof (induction ds arbitrary: queue visited)
  case Nil
  then show ?case by simp
next
  case (Cons d ds)
  let ?n = "step (x, y) d"
  show ?case
  proof (cases "?n \<in> visited \<or> \<not> in_bounds g ?n \<or>
                body_hit (game_snake g) 0 (snake_length (game_snake g)) (fst ?n) (snd ?n)")
    case True
    then have "fill_neighbours g x y depth ds (queue, visited) = (queue', visited')"
      using Cons.prems by (auto simp: Let_def split: if_splits)
    then show ?thesis by (rule Cons.IH)
  next
    case False
    then have r: "fill_neighbours g x y depth ds
        (queue @ [(fst ?n, snd ?n, depth + 1)], insert ?n visited) = (queue', visited')"
      using Cons.prems by (auto simp: Let_def)
    have "{c. in_bounds g c} - insert ?n visited \<subset> {c. in_bounds g c} - visited"
      using False by auto
    then have "card ({c. in_bounds g c} - insert ?n visited) < card ({c. in_bounds g c} - visited)"
      by (intro psubset_card_mono finite_Diff finite_in_bounds)
    then show ?thesis using Cons.IH[OF r] by auto
  qed
qed

lemma bfs_neighbours_measure:
  "bfs_neighbours g x y fd depth ds (queue, visited) = (queue', visited') \<Longrightarrow>
   (queue' = queue \<and> visited' = visited) \<or>
   card ({c. in_bounds g c} - visited') < card ({c. in_bounds g c} - visited)"
proof (induction ds arbitrary: queue visited)
  case Nil
  then show ?case by simp
next
  case (Cons d ds)
  let ?n = "step (x, y) d"
  show ?case
  proof (cases "?n \<in> visited \<or> \<not> in_bounds g ?n \<or>
                body_hit (game_snake g) 1 (snake_length (game_snake g)) (fst ?n) (snd ?n)")
    case True
    then have "bfs_neighbours g x y fd depth ds (queue, visited) = (queue', visited')"
      using Cons.prems by (auto simp: Let_def split: if_splits)
    then show ?thesis by (rule Cons.IH)
  next
    case False
    then have r: "bfs_neighbours g x y fd depth ds
        (queue @ [(fst ?n, snd ?n, fd, depth + 1)], insert ?n visited) = (queue', visited')"
      using Cons.prems by (auto simp: Let_def)
    have "{c. in_bounds g c} - insert ?n visited \<subset> {c. in_bounds g c} - visited"
      using False by auto
    then have "card ({c. in_bounds g c} - insert ?n visited) < card ({c. in_bounds g c} - visited)"
      by (intro psubset_card_mono finite_Diff finite_in_bounds)
    then show ?thesis using Cons.IH[OF r] by auto
  qed
qed

text \<open>The \<open>while queue\<close> loop of \<open>_count_available_space\<close>; it returns \<open>count\<close>.\<close>

function fill_loop :: "game \<Rightarrow> nat \<Rightarrow> fill_entry list \<Rightarrow> cell set \<Rightarrow> nat \<Rightarrow> nat" where
  "fill_loop g max_depth [] visited count = count"
| "fill_loop g max_depth ((x, y, depth) # queue) visited count =
     (if depth \<ge> max_depth then fill_loop g max_depth queue visited (count + 1)
      else
        (case fill_neighbours g x y depth directions (queue, visited) of
           (queue', visited') \<Rightarrow> fill_loop g max_depth queue' visited' (count + 1)))"
  by pat_completeness auto
termination
  by (relation "measures [\<lambda>(g, m, q, v, c). card ({c. in_bounds g c} - v),
                           \<lambda>(g, m, q, v, c). length q]")
     (auto dest: fill_neighbours_measure fill_neighbours_measure[OF sym])

definition count_available_space :: "game \<Rightarrow> int \<Rightarrow> int \<Rightarrow> nat \<Rightarrow> nat" where
  "count_available_space g start_x start_y max_depth =
     fill_loop g max_depth [(start_x, start_y, 0)] {(start_x, start_y)} 0"

text \<open>The \<open>while queue\<close> loop of \<open>_bfs_pathfind\<close>; \<open>None\<close> is "no path found".\<close>

function bfs_loop ::
  "game \<Rightarrow> int \<Rightarrow> int \<Rightarrow> bfs_entry list \<Rightarrow> cell set \<Rightarrow> direction option" where
  "bfs_loop g target_x target_y [] visited = None"
| "bfs_loop g target_x target_y ((current_x, current_y, first_direction, depth) # queue) visited =
     (if current_x = target_x \<and> current_y = target_y then Some first_direction
      else if depth \<ge> bfs_max_depth then bfs_loop g target_x target_y queue visited
      else
        (case bfs_neighbours g current_x current_y first_direction depth directions
                (queue, visited) of
           (queue', visited') \<Rightarrow> bfs_loop g target_x target_y queue' visited'))"
  by pat_completeness auto
termination
  apply (relation "measures [\<lambda>(g, tx, ty, q, v). card ({c. in_bounds g c} - v),
                             \<lambda>(g, tx, ty, q, v). length q]")
    apply simp
   apply simp
  apply (frule bfs_neighbours_measure[OF sym])
  apply (drule sym)
  apply auto
  done

definition bfs_pathfind ::
  "game \<Rightarrow> int \<Rightarrow> int \<Rightarrow> int \<Rightarrow> int \<Rightarrow> direction list \<Rightarrow> direction option" where
  "bfs_pathfind g start_x start_y target_x target_y valid_directions =
     bfs_loop g target_x target_y
       (map (\<lambda>d. (fst (step (start_x, start_y) d), snd (step (start_x, start_y) d), d, 1))
          valid_directions)
       (set (map (step (start_x, start_y)) valid_directions))"

text \<open>\<open>Game._calculate_distance\<close> and \<open>Game._utility_score\<close> (floats idealised as reals).\<close>

definition calculate_distance :: "int \<Rightarrow> int \<Rightarrow> int \<Rightarrow> int \<Rightarrow> real" where
  "calculate_distance x1 y1 x2 y2 = sqrt (real_of_int ((x2 - x1)\<^sup>2 + (y2 - y1)\<^sup>2))"

definition utility_score :: "game \<Rightarrow> int \<Rightarrow> int \<Rightarrow> int \<Rightarrow> int \<Rightarrow> real" where
  "utility_score g next_x next_y ax ay =
     (let s1 = max 0 (1000 - calculate_distance next_x next_y ax ay);
          min_wall_distance =
            min next_x (min (screen_width g - next_x - SIZE)
                          (min next_y (screen_height g - next_y - SIZE)));
          s2 = s1 + real_of_int (min_wall_distance * 2);
          body_distances =
            map (\<lambda>i. calculate_distance next_x next_y
                        (snake_x (game_snake g) ! i) (snake_y (game_snake g) ! i))
              [1..<snake_length (game_snake g)];
          s3 = (if body_distances \<noteq> [] then s2 + Min (set body_distances) * 3 else s2)
      in s3 + real (count_available_space g next_x next_y 8) * 5)"

text \<open>\<open>Game._safety_first_agent\<close>: the first direction with the highest score above -1.\<close>

fun safety_scan ::
  "(direction \<Rightarrow> real) \<Rightarrow> direction list \<Rightarrow> direction option \<times> real \<Rightarrow> direction option \<times> real" where
  "safety_scan f [] best = best"
| "safety_scan f (d # ds) (best_direction, best_score) =
     safety_scan f ds (if f d > best_score then (Some d, f d) else (best_direction, best_score))"

definition safety_first_agent :: "game \<Rightarrow> direction list \<Rightarrow> snake" where
  "safety_first_agent g valid_directions =
     (let head_x = snake_x (game_snake g) ! 0; head_y = snake_y (game_snake g) ! 0
      in case fst (safety_scan
                    (\<lambda>d. utility_score g (fst (step (head_x, head_y) d))
                            (snd (step (head_x, head_y) d)) (apple_x g) (apple_y g))
                    valid_directions (None, - 1)) of
           None \<Rightarrow> game_snake g
         | Some best_direction \<Rightarrow> turn best_direction (game_snake g))"

text \<open>
  \<open>Game.smart_agent_bfs\<close>; it returns the snake it has turned. Without a valid
  direction it returns at once.
\<close>

definition valid_directions :: "game \<Rightarrow> direction list" where
  "valid_directions g =
     filter (\<lambda>d. \<not> is_u_turn (snake_direction (game_snake g)) d \<and>
                 \<not> is_potential_move_colliding g
                     (step (snake_x (game_snake g) ! 0, snake_y (game_snake g) ! 0) d))
       directions"

definition smart_agent_bfs :: "game \<Rightarrow> snake" where
  "smart_agent_bfs g =
     (let head_x = snake_x (game_snake g) ! 0; head_y = snake_y (game_snake g) ! 0
      in if valid_directions g = [] then game_snake g
         else
           (case bfs_pathfind g head_x head_y (apple_x g) (apple_y g) (valid_directions g) of
              Some best_direction \<Rightarrow> turn best_direction (game_snake g)
            | None \<Rightarrow> safety_first_agent g (valid_directions g)))"

section \<open>The flood fills of reflexagent.py and allagents.py\<close>

text \<open>
  Both compare a cell with the segments for equality:
  \<open>for i in range(a, b): if px == x[i] and py == y[i]: ...\<close>.
\<close>

definition segment_at :: "snake \<Rightarrow> nat \<Rightarrow> nat \<Rightarrow> int \<Rightarrow> int \<Rightarrow> bool" where
  "segment_at s a b px py \<longleftrightarrow>
     list_ex (\<lambda>i. px = snake_x s ! i \<and> py = snake_y s ! i) [a..<b]"

text \<open>
  Their neighbour order is \<open>[(SIZE, 0), (-SIZE, 0), (0, SIZE), (0, -SIZE)]\<close>: right, left,
  down, up.
\<close>

definition directions_rldu :: "direction list" where
  "directions_rldu = [Right, Left, Down, Up]"

definition max_iterations :: nat where
  "max_iterations = 100"

text \<open>
  \<open>Game._bfs_accessible_spaces\<close> (reflexagent.py). A queue entry is a cell; a
  neighbour is skipped when out of bounds, visited, or equal to a segment of index 1 and
  above. The loop runs \<open>while queue and accessible_count < max_iterations\<close>.
\<close>

fun accessible_neighbours ::
  "game \<Rightarrow> cell \<Rightarrow> direction list \<Rightarrow> cell list \<times> cell set \<Rightarrow> cell list \<times> cell set" where
  "accessible_neighbours g cur [] (queue, visited) = (queue, visited)"
| "accessible_neighbours g cur (d # ds) (queue, visited) =
     (let nxt = step cur d in
      if \<not> in_bounds g nxt then accessible_neighbours g cur ds (queue, visited)
      else if nxt \<in> visited then accessible_neighbours g cur ds (queue, visited)
      else if segment_at (game_snake g) 1 (snake_length (game_snake g)) (fst nxt) (snd nxt)
      then accessible_neighbours g cur ds (queue, visited)
      else accessible_neighbours g cur ds (queue @ [nxt], insert nxt visited))"

function accessible_loop :: "game \<Rightarrow> cell list \<Rightarrow> cell set \<Rightarrow> nat \<Rightarrow> nat" where
  "accessible_loop g [] visited accessible_count = accessible_count"
| "accessible_loop g (cur # queue) visited accessible_count =
     (if accessible_count < max_iterations
      then
        (case accessible_neighbours g cur directions_rldu (queue, visited) of
           (queue', visited') \<Rightarrow> accessible_loop g queue' visited' (accessible_count + 1))
      else accessible_count)"
  by pat_completeness auto
termination
  by (relation "measure (\<lambda>(g, q, v, c). max_iterations - c)") auto

definition bfs_accessible_spaces :: "game \<Rightarrow> int \<Rightarrow> int \<Rightarrow> nat" where
  "bfs_accessible_spaces g start_x start_y =
     accessible_loop g [(start_x, start_y)] {(start_x, start_y)} 0"

text \<open>
  \<open>GoalBasedAgent.count_available_space\<close> (allagents.py): a depth-first fill with a
  stack, \<open>while stack and count < 100\<close>. The popped cell is skipped when visited, out
  of bounds, or equal to a segment other than the tail; otherwise it is counted and its
  unvisited neighbours are pushed.
\<close>

function stack_loop :: "game \<Rightarrow> cell list \<Rightarrow> cell set \<Rightarrow> nat \<Rightarrow> nat" where
  "stack_loop g stack visited count =
     (if stack \<noteq> [] \<and> count < 100
      then
        if last stack \<in> visited then stack_loop g (butlast stack) visited count
        else if fst (last stack) < 0 \<or> fst (last stack) \<ge> screen_width g \<or>
                snd (last stack) < 0 \<or> snd (last stack) \<ge> screen_height g
        then stack_loop g (butlast stack) visited count
        else if segment_at (game_snake g) 0 (snake_length (game_snake g) - 1)
                  (fst (last stack)) (snd (last stack))
        then stack_loop g (butlast stack) visited count
        else stack_loop g
               (butlast stack @
                filter (\<lambda>next_pos. next_pos \<notin> insert (last stack) visited)
                  (map (step (last stack)) directions_rldu))
               (insert (last stack) visited) (count + 1)
      else count)"
  by pat_completeness auto
termination
proof (relation "measures [\<lambda>(g, st, v, c). card ({c. in_bounds g c} - v),
                           \<lambda>(g, st, v, c). length st]", goal_cases)
  case 1
  then show ?case by simp
next
  case (2 g stack visited count)
  then show ?case by simp
next
  case (3 g stack visited count)
  then show ?case by simp
next
  case (4 g stack visited count)
  then show ?case by simp
next
  case (5 g stack visited count)
  then have "in_bounds g (last stack)" "last stack \<notin> visited"
    by (auto simp: in_bounds_def)
  then have "{c. in_bounds g c} - insert (last stack) visited \<subset> {c. in_bounds g c} - visited"
    by auto
  then have "card ({c. in_bounds g c} - insert (last stack) visited)
      < card ({c. in_bounds g c} - visited)"
    by (intro psubset_card_mono finite_Diff finite_in_bounds)
  then show ?case by simp
qed

definition GoalBasedAgent_count_available_space :: "game \<Rightarrow> int \<Rightarrow> int \<Rightarrow> nat" where
  "GoalBasedAgent_count_available_space g x y = stack_loop g [(x, y)] {} 0"

section \<open>The utility agent of reflexagent.py\<close>

text \<open>
  The agent scores a lethal move with \<open>-float('inf')\<close> and starts its search from
  that value; a snake of one segment has \<open>float('inf')\<close> as its distance to the body.
  Python floats are therefore modelled as the reals with the two infinities and NaN,
  with the arithmetic and comparisons the code uses.
\<close>

datatype py_float = NegInf | Fin real | PosInf | NaN

fun py_add :: "py_float \<Rightarrow> py_float \<Rightarrow> py_float" where
  "py_add (Fin a) (Fin b) = Fin (a + b)"
| "py_add (Fin a) PosInf = PosInf"
| "py_add (Fin a) NegInf = NegInf"
| "py_add PosInf (Fin b) = PosInf"
| "py_add PosInf PosInf = PosInf"
| "py_add PosInf NegInf = NaN"
| "py_add NegInf (Fin b) = NegInf"
| "py_add NegInf NegInf = NegInf"
| "py_add NegInf PosInf = NaN"
| "py_add NaN v = NaN"
| "py_add v NaN = NaN"

text \<open>The product with a finite float \<open>w\<close>.\<close>

fun py_scale :: "py_float \<Rightarrow> real \<Rightarrow> py_float" where
  "py_scale (Fin a) w = Fin (a * w)"
| "py_scale PosInf w = (if 0 < w then PosInf else if w < 0 then NegInf else NaN)"
| "py_scale NegInf w = (if 0 < w then NegInf else if w < 0 then PosInf else NaN)"
| "py_scale NaN w = NaN"

fun py_less :: "py_float \<Rightarrow> py_float \<Rightarrow> bool" where
  "py_less (Fin a) (Fin b) = (a < b)"
| "py_less (Fin a) PosInf = True"
| "py_less (Fin a) NegInf = False"
| "py_less NegInf (Fin b) = True"
| "py_less NegInf PosInf = True"
| "py_less NegInf NegInf = False"
| "py_less PosInf v = False"
| "py_less NaN v = False"
| "py_less v NaN = False"

text \<open>\<open>min(a, b)\<close> returns \<open>a\<close> unless \<open>b < a\<close>.\<close>

definition py_min :: "py_float \<Rightarrow> py_float \<Rightarrow> py_float" where
  "py_min a b = (if py_less b a then b else a)"

text \<open>The dictionary \<open>goals\<close> always has the same four keys.\<close>

record goals =
  reach_apple :: real
  avoid_death :: real
  maintain_space :: real
  efficient_movement :: real

definition determine_goals :: "game \<Rightarrow> goals" where
  "determine_goals g =
     (let goals0 = \<lparr>reach_apple = 1.0, avoid_death = 0.8, maintain_space = 0.6,
                     efficient_movement = 0.3\<rparr>;
          head_x = snake_x (game_snake g) ! 0;
          head_y = snake_y (game_snake g) ! 0;
          goals1 = (if snake_length (game_snake g) > 10
                    then goals0\<lparr>avoid_death := 0.9, maintain_space := 0.7\<rparr> else goals0);
          min_wall_distance =
            min head_x (min (screen_width g - head_x - SIZE)
              (min head_y (screen_height g - head_y - SIZE)))
      in if min_wall_distance < SIZE * 3
         then goals1\<lparr>avoid_death := 1.0, maintain_space := 0.8\<rparr> else goals1)"

text \<open>
  \<open>Game._calculate_distance\<close> is the Euclidean distance of ai.py, word for word:
  \<open>calculate_distance\<close> above.
\<close>

text \<open>
  \<open>Game._bfs_shortest_path\<close>: a queue entry is \<open>(x, y, distance)\<close>; finding the target
  among the neighbours returns at once (\<open>Inl\<close>); the loop gives up after 200 dequeued
  cells.
\<close>

fun shortest_neighbours ::
  "game \<Rightarrow> int \<Rightarrow> int \<Rightarrow> nat \<Rightarrow> int \<Rightarrow> int \<Rightarrow> direction list \<Rightarrow>
   (int \<times> int \<times> nat) list \<times> cell set \<Rightarrow> nat + (int \<times> int \<times> nat) list \<times> cell set" where
  "shortest_neighbours g x y distance target_x target_y [] (queue, visited) = Inr (queue, visited)"
| "shortest_neighbours g x y distance target_x target_y (d # ds) (queue, visited) =
     (let nxt = step (x, y) d in
      if fst nxt = target_x \<and> snd nxt = target_y then Inl (distance + 1)
      else if \<not> in_bounds g nxt
      then shortest_neighbours g x y distance target_x target_y ds (queue, visited)
      else if nxt \<in> visited
      then shortest_neighbours g x y distance target_x target_y ds (queue, visited)
      else if segment_at (game_snake g) 1 (snake_length (game_snake g)) (fst nxt) (snd nxt)
      then shortest_neighbours g x y distance target_x target_y ds (queue, visited)
      else shortest_neighbours g x y distance target_x target_y ds
             (queue @ [(fst nxt, snd nxt, distance + 1)], insert nxt visited))"

function shortest_loop ::
  "game \<Rightarrow> int \<Rightarrow> int \<Rightarrow> (int \<times> int \<times> nat) list \<Rightarrow> cell set \<Rightarrow> nat \<Rightarrow> nat option" where
  "shortest_loop g target_x target_y [] visited iterations = None"
| "shortest_loop g target_x target_y ((x, y, distance) # queue) visited iterations =
     (if iterations < 200
      then
        (case shortest_neighbours g x y distance target_x target_y directions_rldu (queue, visited) of
           Inl n \<Rightarrow> Some n
         | Inr (queue', visited') \<Rightarrow>
             shortest_loop g target_x target_y queue' visited' (iterations + 1))
      else None)"
  by pat_completeness auto
termination
  by (relation "measure (\<lambda>(g, tx, ty, q, v, i). 200 - i)") auto

definition bfs_shortest_path :: "game \<Rightarrow> int \<Rightarrow> int \<Rightarrow> int \<Rightarrow> int \<Rightarrow> nat option" where
  "bfs_shortest_path g start_x start_y target_x target_y =
     (if start_x = target_x \<and> start_y = target_y then Some 0
      else shortest_loop g target_x target_y [(start_x, start_y, 0)] {(start_x, start_y)} 0)"

definition calculate_apple_utility :: "game \<Rightarrow> int \<Rightarrow> int \<Rightarrow> real" where
  "calculate_apple_utility g next_x next_y =
     (case bfs_shortest_path g next_x next_y (apple_x g) (apple_y g) of
        None \<Rightarrow> - 1000
      | Some path_length \<Rightarrow>
          let base_utility = 1000 / (real path_length + 1);
              current_distance =
                calculate_distance (snake_x (game_snake g) ! 0) (snake_y (game_snake g) ! 0)
                  (apple_x g) (apple_y g);
              new_distance = calculate_distance next_x next_y (apple_x g) (apple_y g)
          in if new_distance < current_distance then base_utility + 100 else base_utility)"

definition min_body_distance :: "game \<Rightarrow> int \<Rightarrow> int \<Rightarrow> py_float" where
  "min_body_distance g next_x next_y =
     foldl (\<lambda>m i. py_min m (Fin (calculate_distance next_x next_y
                                   (snake_x (game_snake g) ! i) (snake_y (game_snake g) ! i))))
       PosInf [1..<snake_length (game_snake g)]"

definition calculate_safety_utility :: "game \<Rightarrow> int \<Rightarrow> int \<Rightarrow> py_float" where
  "calculate_safety_utility g next_x next_y =
     (let min_wall_distance =
            min next_x (min (screen_width g - next_x - SIZE)
              (min next_y (screen_height g - next_y - SIZE)));
          u1 = real_of_int min_wall_distance * 0.1;
          u2 = (if min_wall_distance < SIZE * 2 then u1 - 200 else u1)
      in if py_less (min_body_distance g next_x next_y) (Fin (real_of_int (SIZE * 2)))
         then Fin (u2 - 300)
         else py_add (Fin u2) (py_scale (min_body_distance g next_x next_y) 0.05))"

definition calculate_space_utility :: "game \<Rightarrow> int \<Rightarrow> int \<Rightarrow> int" where
  "calculate_space_utility g next_x next_y = int (bfs_accessible_spaces g next_x next_y) * 2"

definition calculate_efficiency_utility :: "game \<Rightarrow> direction \<Rightarrow> int" where
  "calculate_efficiency_utility g action =
     (let u1 = (if action = snake_direction (game_snake g) then 10 else 0);
          head_x = snake_x (game_snake g) ! 0;
          head_y = snake_y (game_snake g) ! 0;
          current_manhattan = \<bar>head_x - apple_x g\<bar> + \<bar>head_y - apple_y g\<bar>;
          next_x = fst (get_potential_head g action);
          next_y = snd (get_potential_head g action);
          new_manhattan = \<bar>next_x - apple_x g\<bar> + \<bar>next_y - apple_y g\<bar>
      in if new_manhattan < current_manhattan then u1 + 20 else u1)"

definition evaluate_action_utility :: "game \<Rightarrow> direction \<Rightarrow> goals \<Rightarrow> py_float" where
  "evaluate_action_utility g action goals =
     (let next_x = fst (get_potential_head g action);
          next_y = snd (get_potential_head g action)
      in if is_potential_move_colliding g (next_x, next_y) then NegInf
         else
           let t1 = py_add (Fin 0) (Fin (calculate_apple_utility g next_x next_y * reach_apple goals));
               t2 = py_add t1 (py_scale (calculate_safety_utility g next_x next_y) (avoid_death goals));
               t3 = py_add t2 (Fin (real_of_int (calculate_space_utility g next_x next_y)
                                      * maintain_space goals));
               t4 = py_add t3 (Fin (real_of_int (calculate_efficiency_utility g action)
                                      * efficient_movement goals))
           in t4)"

definition execute_action :: "game \<Rightarrow> direction \<Rightarrow> game" where
  "execute_action g action = g\<lparr>game_snake := turn action (game_snake g)\<rparr>"

text \<open>
  \<open>Game.utility_agent\<close>: the best of the non-reversal actions by strict comparison,
  starting from \<open>(None, -inf)\<close>; when none was better than \<open>-inf\<close>, the first of all
  four actions that does not collide is requested.
\<close>

definition best_action_loop ::
  "game \<Rightarrow> goals \<Rightarrow> direction list \<Rightarrow> direction option \<times> py_float \<Rightarrow> direction option \<times> py_float" where
  "best_action_loop g goals valid_actions start =
     foldl (\<lambda>(best_action, best_utility) action.
              let utility = evaluate_action_utility g action goals
              in if py_less best_utility utility then (Some action, utility)
                 else (best_action, best_utility))
       start valid_actions"

definition Game_utility_agent :: "game \<Rightarrow> game" where
  "Game_utility_agent g =
     (let actions = [Left, Right, Up, Down];
          goals = determine_goals g;
          valid_actions = filter (\<lambda>action. action \<noteq> opposite (snake_direction (game_snake g))) actions
      in case fst (best_action_loop g goals valid_actions (None, NegInf)) of
           Some best_action \<Rightarrow> execute_action g best_action
         | None \<Rightarrow>
             (case find (\<lambda>action. \<not> is_potential_move_colliding g (get_potential_head g action))
                     actions of
                Some action \<Rightarrow> execute_action g action
              | None \<Rightarrow> g))"

section \<open>Walk\<close>

lemma shift_segments_ok:
  "n < length xs \<Longrightarrow> n < length ys \<Longrightarrow>
   \<exists>xs' ys'. shift_segments n (xs, ys) = Inr (xs', ys') \<and>
     length xs' = length xs \<and> length ys' = length ys \<and>
     (\<forall>i. xs' ! i = (if 0 < i \<and> i \<le> n then xs ! (i - 1) else xs ! i)) \<and>
     (\<forall>i. ys' ! i = (if 0 < i \<and> i \<le> n then ys ! (i - 1) else ys ! i))"
proof (induction n arbitrary: xs ys)
  case 0
  then show ?case by simp
next
  case (Suc n)
  let ?xs = "xs[Suc n := xs ! n]" and ?ys = "ys[Suc n := ys ! n]"
  have "n < length ?xs" "n < length ?ys" using Suc.prems by simp_all
  from Suc.IH[OF this] obtain xs' ys' where
    r: "shift_segments n (?xs, ?ys) = Inr (xs', ys')"
    and l: "length xs' = length ?xs" "length ys' = length ?ys"
    and px: "\<forall>i. xs' ! i = (if 0 < i \<and> i \<le> n then ?xs ! (i - 1) else ?xs ! i)"
    and py: "\<forall>i. ys' ! i = (if 0 < i \<and> i \<le> n then ?ys ! (i - 1) else ?ys ! i)"
    by blast
  have "xs' ! i = (if 0 < i \<and> i \<le> Suc n then xs ! (i - 1) else xs ! i)" for i
    using px[rule_format, of i] Suc.prems
    by (cases "i = Suc n") (auto simp: nth_list_update)
  moreover have "ys' ! i = (if 0 < i \<and> i \<le> Suc n then ys ! (i - 1) else ys ! i)" for i
    using py[rule_format, of i] Suc.prems
    by (cases "i = Suc n") (auto simp: nth_list_update)
  ultimately show ?case using r l Suc.prems by simp
qed

lemma walk_result:
  assumes "consistent s" and "0 < snake_length s"
  shows "\<exists>s'. walk s = Inr s' \<and>
     consistent s' \<and>
     snake_direction s' = snake_direction s \<and> snake_length s' = snake_length s \<and>
     (\<forall>i. 0 < i \<and> i < snake_length s \<longrightarrow>
        snake_x s' ! i = snake_x s ! (i - 1) \<and> snake_y s' ! i = snake_y s ! (i - 1)) \<and>
     (snake_x s' ! 0, snake_y s' ! 0) =
        (snake_x s ! 0 + fst (delta (snake_direction s)),
         snake_y s ! 0 + snd (delta (snake_direction s)))"
proof -
  let ?n = "snake_length s - 1"
  have len: "length (snake_x s) = snake_length s" "length (snake_y s) = snake_length s"
    using assms(1) by (simp_all add: consistent_def)
  have "?n < length (snake_x s)" "?n < length (snake_y s)"
    using assms(2) len by simp_all
  from shift_segments_ok[OF this] obtain xs ys where
    r: "shift_segments ?n (snake_x s, snake_y s) = Inr (xs, ys)"
    and l: "length xs = length (snake_x s)" "length ys = length (snake_y s)"
    and px: "\<forall>i. xs ! i = (if 0 < i \<and> i \<le> ?n then snake_x s ! (i - 1) else snake_x s ! i)"
    and py: "\<forall>i. ys ! i = (if 0 < i \<and> i \<le> ?n then snake_y s ! (i - 1) else snake_y s ! i)"
    by blast
  have ne: "xs \<noteq> []" "ys \<noteq> []" "0 < length xs" "0 < length ys"
    using l len assms(2) by auto
  have x0: "xs ! 0 = snake_x s ! 0" and y0: "ys ! 0 = snake_y s ! 0"
    using px[rule_format, of 0] py[rule_format, of 0] by simp_all
  have tl: "0 < i \<Longrightarrow> i < snake_length s \<Longrightarrow>
              xs ! i = snake_x s ! (i - 1) \<and> ys ! i = snake_y s ! (i - 1)" for i
    using px[rule_format, of i] py[rule_format, of i] by auto
  show ?thesis
    using r ne l len x0 y0 tl
    by (cases "snake_direction s") (simp_all add: walk_def consistent_def)
qed

text \<open>
  C8. On a consistent snake \<open>walk\<close> returns (no \<open>IndexError\<close>); every segment
  \<open>i > 0\<close> takes the old position of segment \<open>i - 1\<close>; the head moves by exactly
  \<open>SIZE\<close> along the current direction, its other coordinate unchanged; direction
  and length are untouched.
\<close>

theorem walk_invariant:
  assumes "consistent s" and "0 < snake_length s"
  shows "\<exists>s'. walk s = Inr s' \<and>
     consistent s' \<and>
     snake_direction s' = snake_direction s \<and> snake_length s' = snake_length s \<and>
     (\<forall>i. 0 < i \<and> i < snake_length s \<longrightarrow>
        snake_x s' ! i = snake_x s ! (i - 1) \<and> snake_y s' ! i = snake_y s ! (i - 1)) \<and>
     (snake_x s' ! 0, snake_y s' ! 0) =
        (snake_x s ! 0 + fst (delta (snake_direction s)),
         snake_y s ! 0 + snd (delta (snake_direction s)))"
  using assms by (rule walk_result)

theorem walk_invariant_witness:
  "\<exists>s'. walk \<lparr>snake_direction = Left, snake_length = 3,
               snake_x = [80, 80, 80], snake_y = [120, 80, 40]\<rparr> = Inr s' \<and>
        snake_x s' = [40, 80, 80] \<and> snake_y s' = [120, 120, 80]"
proof -
  let ?s = "\<lparr>snake_direction = Left, snake_length = 3,
             snake_x = [80, 80, 80], snake_y = [120, 80, 40]\<rparr>"
  have c: "consistent ?s" and p: "0 < snake_length ?s"
    by (simp_all add: consistent_def)
  from walk_invariant[OF c p] obtain s' where "walk ?s = Inr s'" by blast
  moreover have "walk ?s = Inr (?s\<lparr>snake_x := [40, 80, 80], snake_y := [120, 120, 80]\<rparr>)"
    by (simp add: walk_def SIZE_def numeral_3_eq_3)
  ultimately show ?thesis by auto
qed

section \<open>Self-collision scan\<close>

definition tick_inv :: "snake \<Rightarrow> bool" where
  "tick_inv s \<longleftrightarrow>
     consistent s \<and> 0 < snake_length s \<and>
     (3 \<le> snake_length s \<longrightarrow>
        (snake_x s ! 1, snake_y s ! 1) =
          (snake_x s ! 0 - fst (delta (snake_direction s)),
           snake_y s ! 0 - snd (delta (snake_direction s))))"

lemma turn_cases:
  "turn d s = s\<lparr>snake_direction := (if d = opposite (snake_direction s) then snake_direction s else d)\<rparr>"
  by (cases d; cases "snake_direction s")
     (simp_all add: move_left_def move_right_def move_up_def move_down_def)

lemma consistent_increase_length: "consistent s \<Longrightarrow> consistent (increase_length s)"
  by (simp add: consistent_def increase_length_def)

lemma tick_inv_init: "tick_inv snake_init"
  by (simp add: tick_inv_def snake_init_def consistent_def)

lemma tick_inv_walk:
  assumes "consistent s" "0 < snake_length s" "walk s = Inr s'"
  shows "consistent s' \<and> snake_length s' = snake_length s \<and>
         (2 \<le> snake_length s' \<longrightarrow>
          (snake_x s' ! 1, snake_y s' ! 1) =
          (snake_x s' ! 0 - fst (delta (snake_direction s')),
           snake_y s' ! 0 - snd (delta (snake_direction s'))))"
  using walk_result[OF assms(1,2)] assms(3) by auto

lemma tick_inv_tick:
  assumes "tick_inv s" "tick t s = Inr s'"
  shows "tick_inv s'"
proof -
  obtain req ate where t: "t = (req, ate)" by (cases t)
  let ?s0 = "case req of None \<Rightarrow> s | Some d \<Rightarrow> turn d s"
  have c0: "consistent ?s0" "0 < snake_length ?s0"
    using assms(1) by (auto simp: tick_inv_def turn_cases consistent_def split: option.splits)
  from assms(2) t obtain s1 where w: "walk ?s0 = Inr s1"
    and s': "s' = (if ate then increase_length s1 else s1)"
    by (auto split: sum.splits)
  from tick_inv_walk[OF c0 w] have
    c1: "consistent s1" and l1: "snake_length s1 = snake_length ?s0"
    and p1: "2 \<le> snake_length s1 \<longrightarrow>
          (snake_x s1 ! 1, snake_y s1 ! 1) =
          (snake_x s1 ! 0 - fst (delta (snake_direction s1)),
           snake_y s1 ! 0 - snd (delta (snake_direction s1)))"
    by auto
  show ?thesis
  proof (cases ate)
    case False
    then show ?thesis using s' c1 l1 p1 c0 by (auto simp: tick_inv_def)
  next
    case True
    have "consistent (increase_length s1)" using c1 by (rule consistent_increase_length)
    moreover have "3 \<le> snake_length (increase_length s1) \<longrightarrow> 2 \<le> snake_length s1"
      by (simp add: increase_length_def)
    moreover have "2 \<le> snake_length s1 \<Longrightarrow>
       snake_x (increase_length s1) ! 1 = snake_x s1 ! 1 \<and>
       snake_y (increase_length s1) ! 1 = snake_y s1 ! 1 \<and>
       snake_x (increase_length s1) ! 0 = snake_x s1 ! 0 \<and>
       snake_y (increase_length s1) ! 0 = snake_y s1 ! 0"
      using c1 by (simp add: increase_length_def consistent_def nth_append)
    moreover have "snake_direction (increase_length s1) = snake_direction s1"
      by (simp add: increase_length_def)
    ultimately show ?thesis using True s' p1
      by (simp add: tick_inv_def increase_length_def)
  qed
qed

lemma tick_inv_run:
  "tick_inv s \<Longrightarrow> run_ticks ts s = Inr s' \<Longrightarrow> tick_inv s'"
proof (induction ts arbitrary: s)
  case Nil
  then show ?case by simp
next
  case (Cons t ts)
  then show ?case by (auto split: sum.splits dest: tick_inv_tick)
qed

lemma delta_no_hit: "\<not> is_collision (hx + fst (delta d)) (hy + snd (delta d)) hx hy"
  by (cases d) (simp_all add: is_collision_def SIZE_def)

lemma delta2_no_hit:
  "d' \<noteq> opposite d \<Longrightarrow>
   \<not> is_collision (hx + fst (delta d')) (hy + snd (delta d'))
                   (hx - fst (delta d)) (hy - snd (delta d))"
  by (cases d; cases d') (simp_all add: is_collision_def SIZE_def)

lemma body_hit_split:
  "body_hit s 1 n px py \<longleftrightarrow> body_hit s 1 (min 3 n) px py \<or> body_hit s 3 n px py"
proof -
  have "{1..<n} = {1..<min 3 n} \<union> {3..<n}" by auto
  then show ?thesis
    unfolding body_hit_def list_ex_iff set_upt by (metis Un_iff)
qed

lemma after_tick_walk:
  assumes "tick_inv s"
  shows "\<exists>s'. walk (case req of None \<Rightarrow> s | Some d \<Rightarrow> turn d s) = Inr s' \<and>
     \<not> body_hit s' 1 (min 3 (snake_length s')) (snake_x s' ! 0) (snake_y s' ! 0) \<and>
     self_collision s' = body_hit s' 1 (snake_length s') (snake_x s' ! 0) (snake_y s' ! 0)"
proof -
  let ?s0 = "case req of None \<Rightarrow> s | Some d \<Rightarrow> turn d s"
  have c0: "consistent ?s0" "0 < snake_length ?s0"
    using assms by (auto simp: tick_inv_def turn_cases consistent_def split: option.splits)
  have d0: "snake_direction ?s0 \<noteq> opposite (snake_direction s)"
    by (cases "snake_direction s") (auto simp: turn_cases split: option.splits)
  have same: "snake_x ?s0 = snake_x s" "snake_y ?s0 = snake_y s" "snake_length ?s0 = snake_length s"
    by (auto simp: turn_cases split: option.splits)
  from walk_result[OF c0] obtain s' where w: "walk ?s0 = Inr s'"
    and l: "snake_length s' = snake_length s"
    and seg: "\<forall>i. 0 < i \<and> i < snake_length s \<longrightarrow>
        snake_x s' ! i = snake_x s ! (i - 1) \<and> snake_y s' ! i = snake_y s ! (i - 1)"
    and hd: "snake_x s' ! 0 = snake_x s ! 0 + fst (delta (snake_direction ?s0))"
            "snake_y s' ! 0 = snake_y s ! 0 + snd (delta (snake_direction ?s0))"
    using same by auto
  have h1: "1 < snake_length s \<Longrightarrow>
     \<not> is_collision (snake_x s' ! 0) (snake_y s' ! 0) (snake_x s' ! 1) (snake_y s' ! 1)"
    using seg[rule_format, of 1] hd delta_no_hit by simp
  have h2: "2 < snake_length s \<Longrightarrow>
     \<not> is_collision (snake_x s' ! 0) (snake_y s' ! 0) (snake_x s' ! 2) (snake_y s' ! 2)"
  proof -
    assume a: "2 < snake_length s"
    then have "(snake_x s ! 1, snake_y s ! 1) =
          (snake_x s ! 0 - fst (delta (snake_direction s)),
           snake_y s ! 0 - snd (delta (snake_direction s)))"
      using assms by (simp add: tick_inv_def)
    moreover have "snake_x s' ! 2 = snake_x s ! 1 \<and> snake_y s' ! 2 = snake_y s ! 1"
      using seg[rule_format, of 2] a by simp
    ultimately show ?thesis using hd delta2_no_hit[OF d0] by simp
  qed
  have no: "\<not> body_hit s' 1 (min 3 (snake_length s')) (snake_x s' ! 0) (snake_y s' ! 0)"
  proof
    assume "body_hit s' 1 (min 3 (snake_length s')) (snake_x s' ! 0) (snake_y s' ! 0)"
    then obtain i where i: "1 \<le> i" "i < 3" "i < snake_length s'"
      and c: "is_collision (snake_x s' ! 0) (snake_y s' ! 0) (snake_x s' ! i) (snake_y s' ! i)"
      by (auto simp: body_hit_def list_ex_iff)
    from i have "i = 1 \<or> i = 2" by arith
    then show False using c h1 h2 i l by auto
  qed
  moreover have "self_collision s' = body_hit s' 1 (snake_length s') (snake_x s' ! 0) (snake_y s' ! 0)"
    using no body_hit_split[of s' "snake_length s'"] by (simp add: self_collision_def)
  ultimately show ?thesis using w by blast
qed

text \<open>
  C9, as stated, fails. Two turn requests between two walks reverse the snake
  (up, then left, then down is never a direct reversal for \<open>move_*\<close>), and the head
  lands on segment 2, which \<open>self_collision\<close> does not scan; two \<open>increase_length\<close>
  calls before a walk leave the placeholder (-1, -1) at index 2, whose box contains the
  head cell (0, 0). In both states the scan from index 1 reports a collision and
  \<open>self_collision\<close> does not.
\<close>

theorem neck_scan_counterexample:
  "run_ops [Walk, Grow, Walk, Grow, Walk, Turn Left, Turn Up, Walk] snake_init =
     Inr \<lparr>snake_direction = Up, snake_length = 3,
          snake_x = [40, 40, 40], snake_y = [120, 160, 120]\<rparr> \<and>
   \<not> self_collision \<lparr>snake_direction = Up, snake_length = 3,
          snake_x = [40, 40, 40], snake_y = [120, 160, 120]\<rparr> \<and>
   body_hit \<lparr>snake_direction = Up, snake_length = 3,
          snake_x = [40, 40, 40], snake_y = [120, 160, 120]\<rparr> 1 3 40 120 \<and>
   run_ops [Turn Left, Walk, Turn Up, Grow, Grow, Walk] snake_init =
     Inr \<lparr>snake_direction = Up, snake_length = 3,
          snake_x = [0, 0, -1], snake_y = [0, 40, -1]\<rparr> \<and>
   \<not> self_collision \<lparr>snake_direction = Up, snake_length = 3,
          snake_x = [0, 0, -1], snake_y = [0, 40, -1]\<rparr> \<and>
   body_hit \<lparr>snake_direction = Up, snake_length = 3,
          snake_x = [0, 0, -1], snake_y = [0, 40, -1]\<rparr> 1 3 0 0"
  by (simp add: snake_init_def walk_def increase_length_def move_left_def move_up_def
        SIZE_def numeral_2_eq_2 self_collision_def body_hit_def is_collision_def upt_rec)

text \<open>
  C9, amended. From the initial snake, after any number of ticks (at most one turn
  request, a walk, at most one growth each), one more turn request and walk returns a
  state whose head is outside the boxes of segments 1 and 2, so \<open>self_collision\<close>
  (scan from index 3) agrees with the scan from index 1.
\<close>

theorem self_collision_scan_after_tick:
  assumes "run_ticks ts snake_init = Inr s"
  shows "\<exists>s'. walk (case req of None \<Rightarrow> s | Some d \<Rightarrow> turn d s) = Inr s' \<and>
     \<not> body_hit s' 1 (min 3 (snake_length s')) (snake_x s' ! 0) (snake_y s' ! 0) \<and>
     self_collision s' = body_hit s' 1 (snake_length s') (snake_x s' ! 0) (snake_y s' ! 0)"
  using after_tick_walk[OF tick_inv_run[OF tick_inv_init assms]] .

theorem self_collision_scan_after_tick_witness:
  "run_ticks [(None, True), (Some Right, True), (None, False)] snake_init =
     Inr \<lparr>snake_direction = Right, snake_length = 3,
          snake_x = [120, 80, 40], snake_y = [80, 80, 80]\<rparr> \<and>
   (\<exists>s'. walk (turn Up \<lparr>snake_direction = Right, snake_length = 3,
          snake_x = [120, 80, 40], snake_y = [80, 80, 80]\<rparr>) = Inr s' \<and>
     \<not> body_hit s' 1 (min 3 (snake_length s')) (snake_x s' ! 0) (snake_y s' ! 0) \<and>
     self_collision s' = body_hit s' 1 (snake_length s') (snake_x s' ! 0) (snake_y s' ! 0))"
proof -
  have h: "run_ticks [(None, True), (Some Right, True), (None, False)] snake_init =
     Inr \<lparr>snake_direction = Right, snake_length = 3,
          snake_x = [120, 80, 40], snake_y = [80, 80, 80]\<rparr>"
    by (simp add: snake_init_def walk_def increase_length_def move_right_def
          SIZE_def numeral_2_eq_2)
  show ?thesis
    using h self_collision_scan_after_tick[OF h, of "Some Up"] by simp
qed

section \<open>Exploration rate\<close>

text \<open>\<open>QLearningAgent.__init__\<close> with its default arguments and an empty table.\<close>

definition QLearningAgent_init :: qlearning_agent where
  "QLearningAgent_init =
     \<lparr>qa_learning_rate = 1 / 10, qa_discount_factor = 9 / 10, qa_epsilon = 1,
      qa_epsilon_decay = 999 / 1000, qa_epsilon_min = 1 / 100, qa_q_table = Map.empty\<rparr>"

lemma pow_ub:
  fixes x :: real
  assumes "x ^ m \<le> a" "x ^ n \<le> b" "0 \<le> x" "a * b \<le> c" "k = m + n"
  shows "x ^ k \<le> c"
proof -
  have "x ^ (m + n) = x ^ m * x ^ n" by (simp add: power_add)
  also have "\<dots> \<le> a * b" using assms by (intro mult_mono) (auto intro: order_trans[of 0 "x ^ m" a])
  finally show ?thesis using assms(4,5) by simp
qed

lemma pow_lb:
  fixes x :: real
  assumes "a \<le> x ^ m" "b \<le> x ^ n" "0 \<le> a" "0 \<le> b" "c \<le> a * b" "k = m + n"
  shows "c \<le> x ^ k"
proof -
  have "a * b \<le> x ^ m * x ^ n" using assms by (intro mult_mono) auto
  then show ?thesis using assms(5,6) by (simp add: power_add)
qed

lemma default_decay_upper: "(999 / 1000 :: real) ^ 4603 < 1 / 100"
proof -
  have u1: "(999 / 1000 :: real) ^ 1 \<le> 999 / 1000" by simp
  have u2: "(999 / 1000 :: real) ^ 2 \<le> 998001 / 1000000"
    by (rule pow_ub[OF u1 u1]) simp_all
  have u4: "(999 / 1000 :: real) ^ 4 \<le> 996005996001 / 1000000000000"
    by (rule pow_ub[OF u2 u2]) simp_all
  have u8: "(999 / 1000 :: real) ^ 8 \<le> 992027944069944027992001 / 1000000000000000000000000"
    by (rule pow_ub[OF u4 u4]) simp_all
  have u16: "(999 / 1000 :: real) ^ 16 \<le> 984119441815639996572859 / 1000000000000000000000000"
    by (rule pow_ub[OF u8 u8]) simp_all
  have u32: "(999 / 1000 :: real) ^ 32 \<le> 968491075759526836634317 / 1000000000000000000000000"
    by (rule pow_ub[OF u16 u16]) simp_all
  have u64: "(999 / 1000 :: real) ^ 64 \<le> 5862343523911534691147 / 6250000000000000000000"
    by (rule pow_ub[OF u32 u32]) simp_all
  have u128: "(999 / 1000 :: real) ^ 128 \<le> 175959406552819253837321 / 200000000000000000000000"
    by (rule pow_ub[OF u64 u64]) simp_all
  have u256: "(999 / 1000 :: real) ^ 256 \<le> 38702140943025414208457 / 50000000000000000000000"
    by (rule pow_ub[OF u128 u128]) simp_all
  have u512: "(999 / 1000 :: real) ^ 512 \<le> 599142285429521639121727 / 1000000000000000000000000"
    by (rule pow_ub[OF u256 u256]) simp_all
  have u1024: "(999 / 1000 :: real) ^ 1024 \<le> 358971478189710377825163 / 1000000000000000000000000"
    by (rule pow_ub[OF u512 u512]) simp_all
  have u2048: "(999 / 1000 :: real) ^ 2048 \<le> 25772104430741142695133 / 200000000000000000000000"
    by (rule pow_ub[OF u1024 u1024]) simp_all
  have u4096: "(999 / 1000 :: real) ^ 4096 \<le> 16605034169725680969339 / 1000000000000000000000000"
    by (rule pow_ub[OF u2048 u2048]) simp_all
  have uc4352: "(999 / 1000 :: real) ^ 4352 \<le> 12853007456009525846437 / 1000000000000000000000000"
    by (rule pow_ub[OF u4096 u256]) simp_all
  have uc4480: "(999 / 1000 :: real) ^ 4480 \<le> 2827009455472996612097 / 250000000000000000000000"
    by (rule pow_ub[OF uc4352 u128]) simp_all
  have uc4544: "(999 / 1000 :: real) ^ 4544 \<le> 10606656366930429299963 / 1000000000000000000000000"
    by (rule pow_ub[OF uc4480 u64]) simp_all
  have uc4576: "(999 / 1000 :: real) ^ 4576 \<le> 410898081400803443223 / 40000000000000000000000"
    by (rule pow_ub[OF uc4544 u32]) simp_all
  have uc4592: "(999 / 1000 :: real) ^ 4592 \<le> 5054659881390951140013 / 500000000000000000000000"
    by (rule pow_ub[OF uc4576 u16]) simp_all
  have uc4600: "(999 / 1000 :: real) ^ 4600 \<le> 2507181925054546195933 / 250000000000000000000000"
    by (rule pow_ub[OF uc4592 u8]) simp_all
  have uc4602: "(999 / 1000 :: real) ^ 4602 \<le> 200173605470908972647 / 20000000000000000000000"
    by (rule pow_ub[OF uc4600 u2]) simp_all
  have uc4603: "(999 / 1000 :: real) ^ 4603 \<le> 4999335796635951591859 / 500000000000000000000000"
    by (rule pow_ub[OF uc4602 u1]) simp_all
  show ?thesis by (rule le_less_trans[OF uc4603]) simp
qed

lemma default_decay_lower: "1 / 100 < (999 / 1000 :: real) ^ 4602"
proof -
  have l1: "999 / 1000 \<le> (999 / 1000 :: real) ^ 1" by simp
  have l2: "998001 / 1000000 \<le> (999 / 1000 :: real) ^ 2"
    by (rule pow_lb[OF l1 l1]) simp_all
  have l4: "996005996001 / 1000000000000 \<le> (999 / 1000 :: real) ^ 4"
    by (rule pow_lb[OF l2 l2]) simp_all
  have l8: "992027944069944027992001 / 1000000000000000000000000 \<le> (999 / 1000 :: real) ^ 8"
    by (rule pow_lb[OF l4 l4]) simp_all
  have l16: "492059720907819998286429 / 500000000000000000000000 \<le> (999 / 1000 :: real) ^ 16"
    by (rule pow_lb[OF l8 l8]) simp_all
  have l32: "484245537879763418317157 / 500000000000000000000000 \<le> (999 / 1000 :: real) ^ 32"
    by (rule pow_lb[OF l16 l16]) simp_all
  have l64: "937974963825845550583513 / 1000000000000000000000000 \<le> (999 / 1000 :: real) ^ 64"
    by (rule pow_lb[OF l32 l32]) simp_all
  have l128: "879797032764096269186591 / 1000000000000000000000000 \<le> (999 / 1000 :: real) ^ 128"
    by (rule pow_lb[OF l64 l64]) simp_all
  have l256: "387021409430254142084557 / 500000000000000000000000 \<le> (999 / 1000 :: real) ^ 256"
    by (rule pow_lb[OF l128 l128]) simp_all
  have l512: "299571142714760819560843 / 500000000000000000000000 \<le> (999 / 1000 :: real) ^ 512"
    by (rule pow_lb[OF l256 l256]) simp_all
  have l1024: "358971478189710377825113 / 1000000000000000000000000 \<le> (999 / 1000 :: real) ^ 1024"
    by (rule pow_lb[OF l512 l512]) simp_all
  have l2048: "32215130538426428368907 / 250000000000000000000000 \<le> (999 / 1000 :: real) ^ 2048"
    by (rule pow_lb[OF l1024 l1024]) simp_all
  have l4096: "16605034169725680969329 / 1000000000000000000000000 \<le> (999 / 1000 :: real) ^ 4096"
    by (rule pow_lb[OF l2048 l2048]) simp_all
  have lc4352: "3213251864002381461607 / 250000000000000000000000 \<le> (999 / 1000 :: real) ^ 4352"
    by (rule pow_lb[OF l4096 l256]) simp_all
  have lc4480: "5654018910945993224189 / 500000000000000000000000 \<le> (999 / 1000 :: real) ^ 4480"
    by (rule pow_lb[OF lc4352 l128]) simp_all
  have lc4544: "10606656366930429299953 / 1000000000000000000000000 \<le> (999 / 1000 :: real) ^ 4544"
    by (rule pow_lb[OF lc4480 l64]) simp_all
  have lc4576: "2568113008755021520141 / 250000000000000000000000 \<le> (999 / 1000 :: real) ^ 4576"
    by (rule pow_lb[OF lc4544 l32]) simp_all
  have lc4592: "2021863952556380456003 / 200000000000000000000000 \<le> (999 / 1000 :: real) ^ 4592"
    by (rule pow_lb[OF lc4576 l16]) simp_all
  have lc4600: "250718192505454619593 / 25000000000000000000000 \<le> (999 / 1000 :: real) ^ 4600"
    by (rule pow_lb[OF lc4592 l8]) simp_all
  have lc4602: "10008680273545448632337 / 1000000000000000000000000 \<le> (999 / 1000 :: real) ^ 4602"
    by (rule pow_lb[OF lc4600 l2]) simp_all
  show ?thesis by (rule less_le_trans[OF _ lc4602]) simp
qed

lemma decay_iterate:
  assumes "\<forall>k<n. qa_epsilon_min agent < qa_epsilon agent * qa_epsilon_decay agent ^ k"
  shows "(train_episode_decay ^^ n) agent =
           agent\<lparr>qa_epsilon := qa_epsilon agent * qa_epsilon_decay agent ^ n\<rparr>"
  using assms
proof (induction n)
  case 0
  then show ?case by simp
next
  case (Suc n)
  then have ih: "(train_episode_decay ^^ n) agent =
           agent\<lparr>qa_epsilon := qa_epsilon agent * qa_epsilon_decay agent ^ n\<rparr>" by simp
  have gt: "qa_epsilon_min agent < qa_epsilon agent * qa_epsilon_decay agent ^ n"
    using Suc.prems by simp
  have "(train_episode_decay ^^ Suc n) agent = train_episode_decay ((train_episode_decay ^^ n) agent)"
    by simp
  also have "\<dots> = train_episode_decay (agent\<lparr>qa_epsilon := qa_epsilon agent * qa_epsilon_decay agent ^ n\<rparr>)"
    by (simp only: ih)
  also have "\<dots> = agent\<lparr>qa_epsilon := qa_epsilon agent * qa_epsilon_decay agent ^ Suc n\<rparr>"
    using gt by (simp add: train_episode_decay_def mult.assoc mult.commute)
  finally show ?case .
qed

text \<open>
  C4 fails on learning.py. \<open>train_episode\<close> tests \<open>epsilon > epsilon_min\<close> before it
  multiplies and does not clamp the product, so the step that crosses the minimum lands
  below it. With the constructor's defaults (1.0, 0.999, 0.01) this happens in episode
  4603: epsilon is \<open>0.999 ^ 4603\<close>, about 0.0099987.
\<close>

theorem epsilon_below_minimum:
  "qa_epsilon_min QLearningAgent_init \<le> qa_epsilon QLearningAgent_init \<and>
   qa_epsilon ((train_episode_decay ^^ 4603) QLearningAgent_init)
     < qa_epsilon_min ((train_episode_decay ^^ 4603) QLearningAgent_init)"
proof -
  have "\<forall>k<4603. qa_epsilon_min QLearningAgent_init
           < qa_epsilon QLearningAgent_init * qa_epsilon_decay QLearningAgent_init ^ k"
  proof (intro allI impI)
    fix k :: nat assume "k < 4603"
    then have "k \<le> 4602" by simp
    then have "(999 / 1000 :: real) ^ 4602 \<le> (999 / 1000) ^ k"
      by (intro power_decreasing) simp_all
    with default_decay_lower have "1 / 100 < (999 / 1000 :: real) ^ k" by (rule less_le_trans)
    then show "qa_epsilon_min QLearningAgent_init
           < qa_epsilon QLearningAgent_init * qa_epsilon_decay QLearningAgent_init ^ k"
      by (simp only: QLearningAgent_init_def qlearning_agent.simps mult_1)
  qed
  from decay_iterate[OF this] have
    "(train_episode_decay ^^ 4603) QLearningAgent_init =
       QLearningAgent_init\<lparr>qa_epsilon := qa_epsilon QLearningAgent_init * qa_epsilon_decay QLearningAgent_init ^ 4603\<rparr>" .
  moreover have "qa_epsilon QLearningAgent_init * qa_epsilon_decay QLearningAgent_init ^ 4603 < qa_epsilon_min QLearningAgent_init"
    using default_decay_upper by (simp only: QLearningAgent_init_def qlearning_agent.simps mult_1)
  moreover have "qa_epsilon_min QLearningAgent_init \<le> qa_epsilon QLearningAgent_init"
    by (simp add: QLearningAgent_init_def)
  ultimately show ?thesis by simp
qed

text \<open>
  The sibling in allagents.py clamps: every completed \<open>LearningAgent.make_move\<close> leaves
  \<open>epsilon\<close> at or above \<open>min_epsilon\<close>.
\<close>

lemma LearningAgent_epsilon_floor:
  "LearningAgent_make_move env agent g rnd pick = Inr (agent', g') \<Longrightarrow>
   la_min_epsilon agent' \<le> la_epsilon agent'"
  by (auto simp: LearningAgent_make_move_def Let_def split: sum.splits prod.splits if_splits)

section \<open>Rewards\<close>

lemma manhattan_nonneg: "0 \<le> calculate_manhattan_distance x1 y1 x2 y2"
  by (simp add: calculate_manhattan_distance_def SIZE_def pos_imp_zdiv_nonneg_iff)

text \<open>
  C3, as stated, fails on allagents.py: \<open>LearningAgent.get_reward\<close> starts from 100 when
  the score has grown and then applies the shaping terms. With the head one cell from the
  wall and the new apple far away the reward for the apple is 95.
\<close>

theorem apple_reward_counterexample:
  "la_last_score
     \<lparr>la_q_table = Map.empty, la_learning_rate = 1 / 10, la_discount_factor = 95 / 100,
      la_epsilon = 2 / 10, la_epsilon_decay = 99 / 100, la_min_epsilon = 1 / 100,
      la_last_state = Some (0, 1, (0, 0, 0, 0), 0, 0, 1), la_last_action = Some 3,
      la_last_score = 0, la_episodes = 0\<rparr>
     < int (snake_length \<lparr>snake_direction = Down, snake_length = 2,
                           snake_x = [40, -1], snake_y = [80, -1]\<rparr>) - 1 \<and>
   fst (LearningAgent_get_reward
     \<lparr>la_q_table = Map.empty, la_learning_rate = 1 / 10, la_discount_factor = 95 / 100,
      la_epsilon = 2 / 10, la_epsilon_decay = 99 / 100, la_min_epsilon = 1 / 100,
      la_last_state = Some (0, 1, (0, 0, 0, 0), 0, 0, 1), la_last_action = Some 3,
      la_last_score = 0, la_episodes = 0\<rparr>
     \<lparr>screen_width = 1000, screen_height = 800,
      game_snake = \<lparr>snake_direction = Down, snake_length = 2,
                     snake_x = [40, -1], snake_y = [80, -1]\<rparr>,
      apple_x = 400, apple_y = 400\<rparr>) = 95"
  by (simp add: LearningAgent_get_reward_def calculate_manhattan_distance_def
        min_wall_cells_def SIZE_def Let_def)

text \<open>
  C3, amended. In learning.py \<open>QLearningAgent.get_reward\<close> returns -500 for a
  transition that ended the episode and 1000 for one that ate the apple without ending
  it. In allagents.py \<open>LearningAgent.get_reward\<close> returns, when the score has grown,
  100 plus a bonus of at most 2 minus at most two penalties of 5: between 90 and 102.
\<close>

theorem terminal_rewards:
  "QLearningAgent_get_reward g old_state action new_state True ate_apple = Inr (- 500) \<and>
   QLearningAgent_get_reward g old_state action new_state False True = Inr 1000 \<and>
   (la_last_score agent < int (snake_length (game_snake g)) - 1 \<longrightarrow>
      90 \<le> fst (LearningAgent_get_reward agent g) \<and>
      fst (LearningAgent_get_reward agent g) \<le> 102)"
proof -
  let ?d = "calculate_manhattan_distance (snake_x (game_snake g) ! 0)
              (snake_y (game_snake g) ! 0) (apple_x g) (apple_y g)"
  have "0 \<le> real_of_int ?d" using manhattan_nonneg[of _ _ "apple_x g" "apple_y g"] by simp
  then have b: "0 \<le> max 0 (2 - real_of_int ?d * 0.5)" "max 0 (2 - real_of_int ?d * 0.5) \<le> 2"
    by auto
  show ?thesis using b
    by (auto simp: QLearningAgent_get_reward_def LearningAgent_get_reward_def Let_def
          simp del: max.bounded_iff max.absorb1 max.absorb2 max.absorb3 max.absorb4)
qed

theorem terminal_rewards_witness:
  "la_last_score
     \<lparr>la_q_table = Map.empty, la_learning_rate = 1 / 10, la_discount_factor = 95 / 100,
      la_epsilon = 2 / 10, la_epsilon_decay = 99 / 100, la_min_epsilon = 1 / 100,
      la_last_state = None, la_last_action = None, la_last_score = 0, la_episodes = 0\<rparr>
     < int (snake_length (game_snake
         \<lparr>screen_width = 1000, screen_height = 800,
          game_snake = \<lparr>snake_direction = Right, snake_length = 2,
                         snake_x = [400, 360], snake_y = [400, 400]\<rparr>,
          apple_x = 440, apple_y = 400\<rparr>)) - 1 \<and>
   90 \<le> fst (LearningAgent_get_reward
     \<lparr>la_q_table = Map.empty, la_learning_rate = 1 / 10, la_discount_factor = 95 / 100,
      la_epsilon = 2 / 10, la_epsilon_decay = 99 / 100, la_min_epsilon = 1 / 100,
      la_last_state = None, la_last_action = None, la_last_score = 0, la_episodes = 0\<rparr>
     \<lparr>screen_width = 1000, screen_height = 800,
      game_snake = \<lparr>snake_direction = Right, snake_length = 2,
                     snake_x = [400, 360], snake_y = [400, 400]\<rparr>,
      apple_x = 440, apple_y = 400\<rparr>) \<and>
   QLearningAgent_get_reward
     \<lparr>screen_width = 1000, screen_height = 800,
      game_snake = \<lparr>snake_direction = Right, snake_length = 2,
                     snake_x = [400, 360], snake_y = [400, 400]\<rparr>,
      apple_x = 440, apple_y = 400\<rparr>
     (1, 0, (0, 0, 1, 0), 3) 3 (1, 0, (0, 0, 1, 0), 3) False True = Inr 1000"
proof -
  let ?a = "\<lparr>la_q_table = Map.empty, la_learning_rate = 1 / 10, la_discount_factor = 95 / 100,
      la_epsilon = 2 / 10, la_epsilon_decay = 99 / 100, la_min_epsilon = 1 / 100,
      la_last_state = None, la_last_action = None, la_last_score = 0, la_episodes = 0\<rparr>"
  let ?g = "\<lparr>screen_width = 1000, screen_height = 800,
      game_snake = \<lparr>snake_direction = Right, snake_length = 2,
                     snake_x = [400, 360], snake_y = [400, 400]\<rparr>,
      apple_x = 440, apple_y = 400\<rparr>"
  have h: "la_last_score ?a < int (snake_length (game_snake ?g)) - 1" by simp
  from terminal_rewards[of ?g "(1, 0, (0, 0, 1, 0), 3)" 3 "(1, 0, (0, 0, 1, 0), 3)" True ?a] h
  show ?thesis by blast
qed

section \<open>The Q-table update\<close>

text \<open>
  The update rule in the words of the specification: the value of \<open>(s, a)\<close> moves by
  the fraction \<open>alpha\<close> towards \<open>r + gamma * future\<close>, where \<open>future\<close> is the largest
  value among the actions legal from the next state, and an action is legal when it is
  neither the reversal of that state's direction nor flagged as dangerous in it.
\<close>

definition q_value :: "(qstate \<rightharpoonup> real list) \<Rightarrow> qstate \<Rightarrow> nat \<Rightarrow> real" where
  "q_value q s a = (case q s of None \<Rightarrow> 0 | Some row \<Rightarrow> row ! a)"

fun legal_from :: "qstate \<Rightarrow> nat set" where
  "legal_from (ax, ay, dgs, code) =
     {i. i < 4 \<and> (\<exists>cur. direction_map_rev code = Some cur \<and>
                     QLearningAgent_actions ! i \<noteq> opposite cur) \<and>
         dangers_list dgs ! i = 0}"

fun sr_legal_from :: "sr_state \<Rightarrow> direction set" where
  "sr_legal_from (al, ar, au, ad, danger_left, danger_right, danger_up, danger_down, cur) =
     {a. a \<noteq> opposite cur \<and>
         \<not> (case a of Left \<Rightarrow> danger_left | Right \<Rightarrow> danger_right
                     | Up \<Rightarrow> danger_up | Down \<Rightarrow> danger_down)}"

lemma is_u_turn_opposite: "is_u_turn cur a \<longleftrightarrow> a = opposite cur"
  by (cases cur; cases a) (simp_all add: is_u_turn_def)

lemma py_max_Max: "vs \<noteq> [] \<Longrightarrow> py_max vs = Max (set vs)"
proof (induction vs rule: py_max.induct)
  case (1 v)
  then show ?case by simp
next
  case (2 v w vs)
  then show ?case by (simp add: max.commute)
next
  case 3
  then show ?case by simp
qed

lemma valid_actions_legal:
  assumes "code < 4"
  shows "\<exists>valid. get_valid_actions_for_state (ax, ay, dgs, code) = Inr valid \<and>
           set valid = legal_from (ax, ay, dgs, code) \<and> (\<forall>i\<in>set valid. i < 4)"
proof -
  from assms have "code = 0 \<or> code = 1 \<or> code = 2 \<or> code = 3" by arith
  then obtain cur where c: "direction_map_rev code = Some cur"
    by (auto simp: direction_map_rev_def)
  let ?P = "\<lambda>i. QLearningAgent_actions ! i \<noteq> opposite cur \<and> dangers_list dgs ! i = 0"
  have n4: "n_actions = 4" by (simp add: n_actions_def QLearningAgent_actions_def)
  have "get_valid_actions_for_state (ax, ay, dgs, code) = Inr (filter ?P [0..<4])"
    using c by (simp add: n4 is_u_turn_opposite del: upt_rec_numeral)
  moreover have "set (filter ?P [0..<4]) = legal_from (ax, ay, dgs, code)"
    using c unfolding set_filter set_upt by auto
  moreover have "\<forall>i\<in>set (filter ?P [0..<4]). i < 4"
    unfolding set_filter set_upt by auto
  ultimately show ?thesis by blast
qed

lemma learning_update:
  assumes rows: "\<forall>t row. qa_q_table agent t = Some row \<longrightarrow> length row = 4"
    and a: "action < 4" and code: "snd (snd (snd next_state)) < 4"
  shows "\<exists>agent'. QLearningAgent_update_q_table agent state action reward next_state done = Inr agent' \<and>
      q_value (qa_q_table agent') state action =
        q_value (qa_q_table agent) state action + qa_learning_rate agent *
          ((if done then reward
            else reward + qa_discount_factor agent *
                   (if legal_from next_state = {} then 0
                    else Max (q_value (qa_q_table agent) next_state ` legal_from next_state)))
           - q_value (qa_q_table agent) state action) \<and>
      (\<forall>t b. (t, b) \<noteq> (state, action) \<longrightarrow> b < 4 \<longrightarrow>
          q_value (qa_q_table agent') t b = q_value (qa_q_table agent) t b)"
proof -
  let ?q = "qa_q_table agent"
  define q1 where "q1 = (if ?q state = None then ?q(state \<mapsto> replicate n_actions 0) else ?q)"
  define q2 where "q2 = (if q1 next_state = None then q1(next_state \<mapsto> replicate n_actions 0) else q1)"
  define row where "row = the (q2 state)"
  define nrow where "nrow = the (q2 next_state)"
  have n4: "n_actions = 4" by (simp add: n_actions_def QLearningAgent_actions_def)
  have rows': "\<And>t row. ?q t = Some row \<Longrightarrow> length row = 4" using rows by blast
  have row: "length row = 4" "\<And>i. i < 4 \<Longrightarrow> row ! i = q_value ?q state i"
    unfolding row_def q2_def q1_def by (auto simp: n4 q_value_def dest: rows')
  have nrow: "length nrow = 4" "\<And>i. i < 4 \<Longrightarrow> nrow ! i = q_value ?q next_state i"
    unfolding nrow_def q2_def q1_def by (auto simp: n4 q_value_def dest: rows')
  have other: "\<And>t b. t \<noteq> state \<Longrightarrow> b < 4 \<Longrightarrow> q_value q2 t b = q_value ?q t b"
    unfolding q2_def q1_def by (auto simp: n4 q_value_def split: option.splits)
  obtain ax ay dgs c where ns: "next_state = (ax, ay, dgs, c)" by (cases next_state)
  with code have "c < 4" by simp
  from valid_actions_legal[OF this, of ax ay dgs] ns obtain valid where
    v: "get_valid_actions_for_state next_state = Inr valid"
    and vl: "set valid = legal_from next_state" and vb: "\<forall>i\<in>set valid. i < 4"
    by auto
  have nox: "\<not> list_ex (\<lambda>i. length nrow \<le> i) valid"
    using vb nrow(1) by (auto simp: list_ex_iff)
  have mx: "valid \<noteq> [] \<Longrightarrow>
      py_max (map (\<lambda>i. nrow ! i) valid) = Max (q_value ?q next_state ` legal_from next_state)"
  proof -
    assume ne: "valid \<noteq> []"
    have "map (\<lambda>i. nrow ! i) valid = map (q_value ?q next_state) valid"
      using vb nrow(2) by (intro map_cong) auto
    then show ?thesis using ne vl by (simp add: py_max_Max)
  qed
  have em: "valid = [] \<longleftrightarrow> legal_from next_state = {}" using vl by auto
  define target where "target = (if done then reward
            else reward + qa_discount_factor agent *
                   (if legal_from next_state = {} then 0
                    else Max (q_value ?q next_state ` legal_from next_state)))"
  define newv where "newv = q_value ?q state action + qa_learning_rate agent *
          (target - q_value ?q state action)"
  have unf: "QLearningAgent_update_q_table agent state action reward next_state done =
     (if length row \<le> action then Inl IndexError
         else
           case (if done then Inr reward
                 else
                   (case get_valid_actions_for_state next_state of
                      Inl e \<Rightarrow> Inl e
                    | Inr next_state_valid_actions \<Rightarrow>
                        if list_ex (\<lambda>i. length nrow \<le> i) next_state_valid_actions
                        then Inl IndexError
                        else
                          Inr (reward + qa_discount_factor agent *
                                 (if next_state_valid_actions \<noteq> []
                                  then py_max (map (\<lambda>i. nrow ! i) next_state_valid_actions)
                                  else 0)))) of
             Inl e \<Rightarrow> Inl e
           | Inr target_q \<Rightarrow>
               Inr (agent\<lparr>qa_q_table :=
                      q2(state \<mapsto> row[action := row ! action +
                                     qa_learning_rate agent * (target_q - row ! action)])\<rparr>))"
    unfolding QLearningAgent_update_q_table_def Let_def nrow_def row_def q2_def q1_def
    by (rule refl)
  have tg: "(if done then Inr reward
                 else
                   (case get_valid_actions_for_state next_state of
                      Inl e \<Rightarrow> Inl e
                    | Inr next_state_valid_actions \<Rightarrow>
                        if list_ex (\<lambda>i. length nrow \<le> i) next_state_valid_actions
                        then Inl IndexError
                        else
                          Inr (reward + qa_discount_factor agent *
                                 (if next_state_valid_actions \<noteq> []
                                  then py_max (map (\<lambda>i. nrow ! i) next_state_valid_actions)
                                  else 0)))) = (Inr target :: py_error + real)"
    unfolding target_def using v nox mx em by (cases "valid = []") simp_all
  have res: "QLearningAgent_update_q_table agent state action reward next_state done =
      Inr (agent\<lparr>qa_q_table := q2(state \<mapsto> row[action := newv])\<rparr>)"
    unfolding unf tg newv_def using row a by simp
  have "q_value (q2(state \<mapsto> row[action := newv])) state action = newv"
    using row a by (simp add: q_value_def)
  moreover have "\<And>t b. (t, b) \<noteq> (state, action) \<Longrightarrow> b < 4 \<Longrightarrow>
      q_value (q2(state \<mapsto> row[action := newv])) t b = q_value ?q t b"
  proof -
    fix t b assume tb: "(t, b) \<noteq> (state, action)" "b < 4"
    show "q_value (q2(state \<mapsto> row[action := newv])) t b = q_value ?q t b"
    proof (cases "t = state")
      case True
      then have "b \<noteq> action" using tb by simp
      then show ?thesis using True row tb by (simp add: q_value_def)
    next
      case False
      then have "q_value (q2(state \<mapsto> row[action := newv])) t b = q_value q2 t b"
        by (simp add: q_value_def)
      then show ?thesis using other[OF False tb(2)] by simp
    qed
  qed
  ultimately show ?thesis unfolding res newv_def target_def by simp
qed

lemma sr_update:
  "simplereflex_update_q_table alpha gamma q s a r (Some ns) False (s, a) =
     Some (sr_get q (s, a) + alpha * (r + gamma * Max ((\<lambda>a'. sr_get q (ns, a')) ` UNIV) - sr_get q (s, a)))"
  "simplereflex_update_q_table alpha gamma q s a r nxt True (s, a) = Some r"
  "k \<noteq> (s, a) \<Longrightarrow> simplereflex_update_q_table alpha gamma q s a r nxt terminal k = q k"
proof -
  have U: "(UNIV :: direction set) = {Left, Right, Up, Down}"
    using direction.exhaust by auto
  show "simplereflex_update_q_table alpha gamma q s a r (Some ns) False (s, a) =
     Some (sr_get q (s, a) + alpha * (r + gamma * Max ((\<lambda>a'. sr_get q (ns, a')) ` UNIV) - sr_get q (s, a)))"
    unfolding U by (simp add: simplereflex_update_q_table_def Let_def max.assoc)
qed (simp_all add: simplereflex_update_q_table_def Let_def)

text \<open>
  The rule as the specification words it, on the table of simplereflex.py: the maximum
  ranges over the actions legal from the next state.
\<close>

definition spec_q_update ::
  "real \<Rightarrow> real \<Rightarrow> ((sr_state \<times> direction) \<rightharpoonup> real) \<Rightarrow> sr_state \<Rightarrow> direction \<Rightarrow> real \<Rightarrow>
   sr_state \<Rightarrow> real" where
  "spec_q_update alpha gamma q s a r ns =
     sr_get q (s, a) +
     alpha * (r + gamma * Max ((\<lambda>a'. sr_get q (ns, a')) ` sr_legal_from ns) - sr_get q (s, a))"

text \<open>
  C2, as stated, fails on simplereflex.py: \<open>_update_q_table\<close> takes the maximum over all
  four actions. Here the next state flags left as dangerous and left alone has a
  positive value: the code stores 0.8, the rule with the maximum over the legal actions
  gives -0.1.
\<close>

theorem q_update_counterexample:
  "simplereflex_update_q_table (1 / 10) (9 / 10)
      [((False, False, False, False, True, False, False, False, Up), Left) \<mapsto> 10]
      (False, False, False, False, False, False, False, False, Up) Up (- 1)
      (Some (False, False, False, False, True, False, False, False, Up)) False
      ((False, False, False, False, False, False, False, False, Up), Up) = Some (4 / 5) \<and>
   Left \<notin> sr_legal_from (False, False, False, False, True, False, False, False, Up) \<and>
   spec_q_update (1 / 10) (9 / 10)
      [((False, False, False, False, True, False, False, False, Up), Left) \<mapsto> 10]
      (False, False, False, False, False, False, False, False, Up) Up (- 1)
      (False, False, False, False, True, False, False, False, Up) = - 1 / 10"
proof -
  have L: "sr_legal_from (False, False, False, False, True, False, False, False, Up) = {Right, Up}"
    by (auto split: direction.splits) (metis direction.exhaust opposite.simps(3,4))
  show ?thesis unfolding spec_q_update_def L
    by (simp add: simplereflex_update_q_table_def sr_get_def Let_def)
qed

text \<open>
  C2, amended. \<open>QLearningAgent.update_q_table\<close> of learning.py, on a table whose rows
  have four entries, returns and moves the value of \<open>(state, action)\<close> by
  \<open>learning_rate\<close> towards the target: \<open>reward\<close> when \<open>done\<close>, otherwise \<open>reward\<close> plus
  \<open>discount_factor\<close> times the largest value among the actions legal from
  \<open>next_state\<close> (0 when none is legal); no other value changes.
  \<open>Game._update_q_table\<close> of simplereflex.py takes the maximum over all four actions
  and, on a terminal transition, stores the reward itself.
\<close>

theorem q_update_rule:
  assumes "\<forall>t row. qa_q_table agent t = Some row \<longrightarrow> length row = 4"
    and "action < 4" and "snd (snd (snd next_state)) < 4"
  shows "(\<exists>agent'. QLearningAgent_update_q_table agent state action reward next_state done = Inr agent' \<and>
      q_value (qa_q_table agent') state action =
        q_value (qa_q_table agent) state action + qa_learning_rate agent *
          ((if done then reward
            else reward + qa_discount_factor agent *
                   (if legal_from next_state = {} then 0
                    else Max (q_value (qa_q_table agent) next_state ` legal_from next_state)))
           - q_value (qa_q_table agent) state action) \<and>
      (\<forall>t b. (t, b) \<noteq> (state, action) \<longrightarrow> b < 4 \<longrightarrow>
          q_value (qa_q_table agent') t b = q_value (qa_q_table agent) t b)) \<and>
     simplereflex_update_q_table alpha gamma q s a r (Some ns) False (s, a) =
       Some (sr_get q (s, a) +
             alpha * (r + gamma * Max ((\<lambda>a'. sr_get q (ns, a')) ` UNIV) - sr_get q (s, a))) \<and>
     simplereflex_update_q_table alpha gamma q s a r nxt True (s, a) = Some r"
  by (intro conjI learning_update[OF assms] sr_update(1) sr_update(2))

theorem q_update_rule_witness:
  "(\<exists>agent'. QLearningAgent_update_q_table
        (QLearningAgent_init\<lparr>qa_q_table := [(1, 0, (0, 1, 0, 0), 0) \<mapsto> [1, 7, 3, 4]]\<rparr>)
        (0, 0, (0, 0, 0, 0), 0) 2 10 (1, 0, (0, 1, 0, 0), 0) False = Inr agent' \<and>
      q_value (qa_q_table agent') (0, 0, (0, 0, 0, 0), 0) 2 =
        0 + 1 / 10 * (10 + 9 / 10 *
           Max (q_value [(1, 0, (0, 1, 0, 0), 0) \<mapsto> [1, 7, 3, 4]] (1, 0, (0, 1, 0, 0), 0)
                 ` legal_from (1, 0, (0, 1, 0, 0), 0)) - 0))"
proof -
  let ?ag = "QLearningAgent_init\<lparr>qa_q_table := [(1, 0, (0, 1, 0, 0), 0) \<mapsto> [1, 7, 3, 4]]\<rparr>"
  have h1: "\<forall>t row. qa_q_table ?ag t = Some row \<longrightarrow> length row = 4"
    by (simp add: QLearningAgent_init_def)
  have h2: "(2::nat) < 4" and h3: "snd (snd (snd ((1::int, 0::int, (0::int, 1::int, 0::int, 0::int), 0::nat)))) < 4"
    by simp_all
  have ne: "legal_from (1, 0, (0, 1, 0, 0), 0) \<noteq> {}"
  proof -
    have "0 \<in> legal_from (1, 0, (0, 1, 0, 0), 0)"
      by (simp add: direction_map_rev_def QLearningAgent_actions_def)
    then show ?thesis by blast
  qed
  from q_update_rule[OF h1 h2 h3, of "(0, 0, (0, 0, 0, 0), 0)" 10 False]
  obtain agent' where
    "QLearningAgent_update_q_table ?ag (0, 0, (0, 0, 0, 0), 0) 2 10 (1, 0, (0, 1, 0, 0), 0) False = Inr agent'"
    "q_value (qa_q_table agent') (0, 0, (0, 0, 0, 0), 0) 2 =
        q_value (qa_q_table ?ag) (0, 0, (0, 0, 0, 0), 0) 2 + qa_learning_rate ?ag *
          ((if False then 10
            else 10 + qa_discount_factor ?ag *
                   (if legal_from (1, 0, (0, 1, 0, 0), 0) = {} then 0
                    else Max (q_value (qa_q_table ?ag) (1, 0, (0, 1, 0, 0), 0)
                               ` legal_from (1, 0, (0, 1, 0, 0), 0))))
           - q_value (qa_q_table ?ag) (0, 0, (0, 0, 0, 0), 0) 2)"
    by blast
  then show ?thesis using ne
    by (simp add: QLearningAgent_init_def q_value_def del: legal_from.simps)
qed

section \<open>The unbound name in allagents.py\<close>

text \<open>
  C10. In allagents.py no global or builtin is named \<open>state\<close>: the module binds
  \<open>pygame\<close>, \<open>time\<close>, \<open>random\<close>, \<open>math\<close>, \<open>deque\<close>, \<open>np\<close>, \<open>SIZE\<close>,
  \<open>BACKGROUND_COLOR\<close>, its classes and \<open>game\<close>, and the star import of
  \<open>pygame.locals\<close> brings constants only. Under that condition every call of
  \<open>LearningAgent.update_q_table\<close> raises \<open>NameError\<close>; so does every \<open>make_move\<close>
  of an agent that has a last state; and a \<open>make_move\<close> without a last state returns an
  agent that has one, whose next \<open>make_move\<close> raises whatever the game does in between.
\<close>

theorem update_q_table_name_error:
  assumes "env ''state'' = None"
  shows "LearningAgent_update_q_table env agent old_state action reward new_state = Inl NameError \<and>
     (la_last_state agent \<noteq> None \<longrightarrow>
        LearningAgent_make_move env agent g rnd pick = Inl NameError) \<and>
     (la_last_state agent = None \<longrightarrow>
        (\<exists>agent' g'. LearningAgent_make_move env agent g rnd pick = Inr (agent', g') \<and>
           (\<forall>g2 rnd2 pick2. LearningAgent_make_move env agent' g2 rnd2 pick2 = Inl NameError)))"
proof -
  have u: "\<And>ag os ac rw ns. LearningAgent_update_q_table env ag os ac rw ns = Inl NameError"
    using assms by (simp add: LearningAgent_update_q_table_def lookup_name_def Let_def)
  have m: "\<And>ag g1 r1 p1. la_last_state ag \<noteq> None \<Longrightarrow>
             LearningAgent_make_move env ag g1 r1 p1 = Inl NameError"
    by (auto simp: LearningAgent_make_move_def u Let_def split: prod.splits)
  have f: "la_last_state agent = None \<Longrightarrow>
      \<exists>agent' g'. LearningAgent_make_move env agent g rnd pick = Inr (agent', g') \<and>
           la_last_state agent' \<noteq> None"
    by (simp add: LearningAgent_make_move_def Let_def del: not_None_eq)
  show ?thesis using u m f by blast
qed

theorem update_q_table_name_error_witness:
  "(Map.empty :: string \<rightharpoonup> la_state) ''state'' = None \<and>
   LearningAgent_update_q_table Map.empty
     \<lparr>la_q_table = Map.empty, la_learning_rate = 1 / 10, la_discount_factor = 95 / 100,
      la_epsilon = 2 / 10, la_epsilon_decay = 99 / 100, la_min_epsilon = 1 / 100,
      la_last_state = Some (0, 1, (0, 0, 0, 0), 0, 0, 1), la_last_action = Some 3,
      la_last_score = 0, la_episodes = 0\<rparr>
     (0, 1, (0, 0, 0, 0), 0, 0, 1) (Some 3) 95 (1, 1, (0, 0, 0, 0), 0, 0, 1) = Inl NameError \<and>
   LearningAgent_make_move Map.empty
     \<lparr>la_q_table = Map.empty, la_learning_rate = 1 / 10, la_discount_factor = 95 / 100,
      la_epsilon = 2 / 10, la_epsilon_decay = 99 / 100, la_min_epsilon = 1 / 100,
      la_last_state = Some (0, 1, (0, 0, 0, 0), 0, 0, 1), la_last_action = Some 3,
      la_last_score = 0, la_episodes = 0\<rparr>
     \<lparr>screen_width = 1000, screen_height = 800,
      game_snake = \<lparr>snake_direction = Down, snake_length = 2,
                     snake_x = [40, -1], snake_y = [80, -1]\<rparr>,
      apple_x = 400, apple_y = 400\<rparr> (1 / 2) 0 = Inl NameError"
proof -
  have h: "(Map.empty :: string \<rightharpoonup> la_state) ''state'' = None" by simp
  from update_q_table_name_error[OF h] show ?thesis by simp
qed

section \<open>The utility agents and the collisions they can avoid\<close>

lemma best_by_in: "best_by f b xs \<in> set (b # xs)"
  by (induction xs arbitrary: b) auto

lemma best_by_start: "f b \<le> f (best_by f b xs)"
proof (induction xs arbitrary: b)
  case Nil
  then show ?case by simp
next
  case (Cons a as)
  show ?case
  proof (cases "f a > f b")
    case True
    then show ?thesis using Cons.IH[of a] by simp
  next
    case False
    then show ?thesis using Cons.IH[of b] by simp
  qed
qed

lemma best_by_ge: "x \<in> set (b # xs) \<Longrightarrow> f x \<le> f (best_by f b xs)"
proof (induction xs arbitrary: b)
  case Nil
  then show ?case by simp
next
  case (Cons a as)
  consider "x = b" | "x = a" | "x \<in> set as" using Cons.prems by auto
  then show ?case
  proof cases
    case 1
    then show ?thesis using best_by_start[of f b "a # as"] by simp
  next
    case 2
    show ?thesis
    proof (cases "f a > f b")
      case True
      then show ?thesis using 2 best_by_start[of f a as] by simp
    next
      case False
      then have "f a \<le> f b" by simp
      also have "f b \<le> f (best_by f b as)" by (rule best_by_start)
      finally show ?thesis using 2 False by simp
    qed
  next
    case 3
    then show ?thesis using Cons.IH[of "if f a > f b then a else b"] by simp
  qed
qed

lemma manhattan_bound:
  assumes "in_bounds g (x1, y1)" "in_bounds g (x2, y2)"
    "screen_width g \<le> 1000" "screen_height g \<le> 800"
  shows "calculate_manhattan_distance x1 y1 x2 y2 \<le> 43"
proof -
  have "\<bar>x2 - x1\<bar> \<le> 999" "\<bar>y2 - y1\<bar> \<le> 799"
    using assms by (auto simp: in_bounds_def)
  then have "\<bar>x2 - x1\<bar> div 40 \<le> 24" "\<bar>y2 - y1\<bar> div 40 \<le> 19" by linarith+
  then show ?thesis by (simp add: calculate_manhattan_distance_def SIZE_def)
qed

lemma safe_utility_lower:
  assumes safe: "\<not> is_potential_move_colliding g (get_potential_head g d)"
    and apple: "in_bounds g (apple_x g, apple_y g)"
    and wh: "screen_width g \<le> 1000" "screen_height g \<le> 800"
  shows "- 10000 < calculate_utility agent g d"
proof -
  let ?nx = "fst (get_potential_head g d)" and ?ny = "snd (get_potential_head g d)"
  have inb: "in_bounds g (?nx, ?ny)"
    using safe by (auto simp: is_potential_move_colliding_def split: if_splits)
  have ad: "calculate_manhattan_distance ?nx ?ny (apple_x g) (apple_y g) \<le> 43"
    using manhattan_bound[OF inb apple wh] .
  have er: "0 \<le> count_escape_routes g ?nx ?ny" by (simp add: count_escape_routes_def)
  have mw: "0 \<le> min_wall_cells g ?nx ?ny"
    using inb by (auto simp: min_wall_cells_def in_bounds_def SIZE_def pos_imp_zdiv_nonneg_iff)
  show ?thesis
    using safe ad er mw by (auto simp: calculate_utility_def Let_def)
qed

lemma colliding_utility:
  "is_potential_move_colliding g (get_potential_head g d) \<Longrightarrow> calculate_utility agent g d = - 10000"
  by (simp add: calculate_utility_def Let_def)

text \<open>
  What \<open>UtilityBasedAgent.make_move\<close> does guarantee, measured by its own check
  \<open>_is_potential_move_colliding\<close>: on a surface of at most 1000 x 800 with the apple
  inside it, when one of the three directions other than the reversal passes the check,
  so does the direction the snake has after the move.
\<close>

lemma utility_choice:
  assumes ex: "\<exists>d. d \<noteq> opposite (snake_direction (game_snake g)) \<and>
             \<not> is_potential_move_colliding g (get_potential_head g d)"
    and apple: "in_bounds g (apple_x g, apple_y g)"
    and wh: "screen_width g \<le> 1000" "screen_height g \<le> 800"
    and "consistent (game_snake g)" "0 < snake_length (game_snake g)"
  shows "\<not> is_potential_move_colliding g
            (get_potential_head g (snake_direction (game_snake (snd (UtilityBasedAgent_make_move agent g)))))"
proof -
  let ?cur = "snake_direction (game_snake g)"
  define ds where "ds = remove1 (opposite ?cur) [Left, Right, Up, Down]"
  define best where "best = best_by (calculate_utility agent g) (hd ds) (tl ds)"
  have ne: "ds \<noteq> []" unfolding ds_def by (cases ?cur) simp_all
  then have ht: "hd ds # tl ds = ds" by simp
  have sds: "set ds = {d. d \<noteq> opposite ?cur}"
    unfolding ds_def by (cases ?cur) (auto intro: direction.exhaust)
  from ex obtain d where d: "d \<noteq> opposite ?cur"
    "\<not> is_potential_move_colliding g (get_potential_head g d)" by blast
  have "d \<in> set (hd ds # tl ds)" using d(1) sds ht by simp
  from best_by_ge[OF this, of "calculate_utility agent g"]
  have "calculate_utility agent g d \<le> calculate_utility agent g best"
    unfolding best_def .
  with safe_utility_lower[OF d(2) apple wh, of agent]
  have gt: "- 10000 < calculate_utility agent g best" by simp
  have safe: "\<not> is_potential_move_colliding g (get_potential_head g best)"
    using gt colliding_utility[of g best agent] by auto
  have "best \<in> set (hd ds # tl ds)" unfolding best_def by (rule best_by_in)
  then have "best \<noteq> opposite ?cur" using sds ht by simp
  moreover have "snd (UtilityBasedAgent_make_move agent g) =
      g\<lparr>game_snake := turn best (game_snake g)\<rparr>"
    unfolding UtilityBasedAgent_make_move_def Let_def best_def ds_def by simp
  ultimately have "snake_direction (game_snake (snd (UtilityBasedAgent_make_move agent g))) = best"
    by (simp add: turn_cases)
  then show ?thesis using safe by simp
qed

text \<open>
  The utility agent of reflexagent.py: a lethal move scores \<open>-inf\<close>, every other move
  scores above it, and the comparison is strict.
\<close>

definition above_neg_inf :: "py_float \<Rightarrow> bool" where
  "above_neg_inf v \<longleftrightarrow> v = PosInf \<or> (\<exists>r. v = Fin r)"

lemma above_neg_inf_simps:
  "above_neg_inf (Fin r)" "above_neg_inf PosInf" "\<not> above_neg_inf NegInf" "\<not> above_neg_inf NaN"
  by (simp_all add: above_neg_inf_def)

lemma above_neg_inf_cases:
  assumes "above_neg_inf v"
  obtains r where "v = Fin r" | "v = PosInf"
  using assms unfolding above_neg_inf_def by blast

lemma py_less_NegInf: "above_neg_inf v \<Longrightarrow> py_less NegInf v"
  by (erule above_neg_inf_cases) simp_all

lemma py_less_above: "py_less b v \<Longrightarrow> above_neg_inf b \<Longrightarrow> above_neg_inf v"
  by (cases b; cases v) (simp_all add: above_neg_inf_def)

lemma not_py_less_NegInf: "\<not> py_less b NegInf"
  by (cases b) simp_all

lemma py_add_above: "above_neg_inf a \<Longrightarrow> above_neg_inf b \<Longrightarrow> above_neg_inf (py_add a b)"
  by (erule above_neg_inf_cases; erule above_neg_inf_cases) (simp_all add: above_neg_inf_def)

lemma py_scale_above: "above_neg_inf a \<Longrightarrow> 0 < w \<Longrightarrow> above_neg_inf (py_scale a w)"
  by (erule above_neg_inf_cases) (simp_all add: above_neg_inf_def)

lemma py_min_above: "above_neg_inf a \<Longrightarrow> above_neg_inf b \<Longrightarrow> above_neg_inf (py_min a b)"
  by (simp add: py_min_def)

lemma foldl_py_min_above:
  "above_neg_inf m \<Longrightarrow> above_neg_inf (foldl (\<lambda>m i. py_min m (Fin (f i))) m xs)"
  by (induction xs arbitrary: m) (simp_all add: py_min_above above_neg_inf_simps)

lemma min_body_distance_above: "above_neg_inf (min_body_distance g x y)"
  unfolding min_body_distance_def by (rule foldl_py_min_above) (simp add: above_neg_inf_simps)

lemma calculate_safety_utility_above: "above_neg_inf (calculate_safety_utility g x y)"
  unfolding calculate_safety_utility_def Let_def
  by (simp add: above_neg_inf_simps py_add_above py_scale_above min_body_distance_above)

lemma avoid_death_pos: "0 < avoid_death (determine_goals g)"
  by (simp add: determine_goals_def Let_def)

lemma evaluate_colliding:
  "is_potential_move_colliding g (get_potential_head g a) \<Longrightarrow>
     evaluate_action_utility g a goals = NegInf"
  by (simp add: evaluate_action_utility_def)

lemma evaluate_safe:
  assumes "\<not> is_potential_move_colliding g (get_potential_head g a)" "0 < avoid_death goals"
  shows "above_neg_inf (evaluate_action_utility g a goals)"
  using assms unfolding evaluate_action_utility_def Let_def
  by (simp add: above_neg_inf_simps py_add_above py_scale_above calculate_safety_utility_above)

text \<open>
  The loop's invariant: either nothing has been chosen and the best utility is still
  \<open>-inf\<close>, or a safe action among those seen has been chosen and the best utility is
  above \<open>-inf\<close>; once a safe action has been seen, something is chosen.
\<close>

definition chosen_ok :: "game \<Rightarrow> direction set \<Rightarrow> direction option \<times> py_float \<Rightarrow> bool" where
  "chosen_ok g seen st \<longleftrightarrow>
     (case fst st of
        None \<Rightarrow> snd st = NegInf \<and>
                 (\<forall>a\<in>seen. is_potential_move_colliding g (get_potential_head g a))
      | Some b \<Rightarrow> b \<in> seen \<and> \<not> is_potential_move_colliding g (get_potential_head g b) \<and>
                  above_neg_inf (snd st))"

lemma best_action_loop_chosen:
  assumes "chosen_ok g seen st" "0 < avoid_death goals"
  shows "chosen_ok g (seen \<union> set as) (best_action_loop g goals as st)"
  using assms(1)
proof (induction as arbitrary: seen st)
  case Nil
  then show ?case by (simp add: best_action_loop_def)
next
  case (Cons a as)
  obtain ba bu where st: "st = (ba, bu)" by (cases st)
  let ?u = "evaluate_action_utility g a goals"
  let ?st' = "if py_less bu ?u then (Some a, ?u) else (ba, bu)"
  have step: "best_action_loop g goals (a # as) st = best_action_loop g goals as ?st'"
    by (simp add: best_action_loop_def st Let_def)
  have "chosen_ok g (insert a seen) ?st'"
  proof (cases "is_potential_move_colliding g (get_potential_head g a)")
    case True
    then have "?u = NegInf" by (rule evaluate_colliding)
    then have "?st' = (ba, bu)" by (simp add: not_py_less_NegInf)
    then show ?thesis using Cons.prems True
      by (auto simp: chosen_ok_def st split: option.splits)
  next
    case False
    then have ab: "above_neg_inf ?u" using assms(2) by (rule evaluate_safe)
    show ?thesis
    proof (cases "py_less bu ?u")
      case True
      then show ?thesis using False ab by (simp add: chosen_ok_def)
    next
      case nl: False
      have "ba \<noteq> None"
      proof
        assume "ba = None"
        then have "bu = NegInf" using Cons.prems by (simp add: chosen_ok_def st)
        then show False using nl py_less_NegInf[OF ab] by simp
      qed
      then show ?thesis using Cons.prems nl
        by (auto simp: chosen_ok_def st split: option.splits)
    qed
  qed
  from Cons.IH[OF this] show ?case unfolding step by simp
qed

text \<open>
  The same for \<open>Game.utility_agent\<close> of reflexagent.py, on every surface: when one of
  the three directions other than the reversal passes \<open>_is_potential_move_colliding\<close>,
  so does the direction the snake has after the move.
\<close>

lemma Game_utility_agent_choice:
  assumes "\<exists>d. d \<noteq> opposite (snake_direction (game_snake g)) \<and>
             \<not> is_potential_move_colliding g (get_potential_head g d)"
  shows "\<not> is_potential_move_colliding g
            (get_potential_head g (snake_direction (game_snake (Game_utility_agent g))))"
proof -
  let ?cur = "snake_direction (game_snake g)"
  define ds where "ds = filter (\<lambda>action. action \<noteq> opposite ?cur) [Left, Right, Up, Down]"
  define st where "st = best_action_loop g (determine_goals g) ds (None, NegInf)"
  have sds: "set ds = {d. d \<noteq> opposite ?cur}"
    unfolding ds_def by (auto intro: direction.exhaust)
  have "chosen_ok g {} (None, NegInf)" by (simp add: chosen_ok_def)
  from best_action_loop_chosen[OF this avoid_death_pos, of ds]
  have ch: "chosen_ok g (set ds) st" unfolding st_def by simp
  from assms obtain d where d: "d \<in> set ds"
    "\<not> is_potential_move_colliding g (get_potential_head g d)" using sds by blast
  with ch obtain b where b: "fst st = Some b" "b \<in> set ds"
    "\<not> is_potential_move_colliding g (get_potential_head g b)"
    by (auto simp: chosen_ok_def split: option.splits)
  have "Game_utility_agent g = execute_action g b"
    using b(1) unfolding Game_utility_agent_def Let_def st_def ds_def by simp
  moreover have "b \<noteq> opposite ?cur" using b(2) sds by simp
  ultimately have "snake_direction (game_snake (Game_utility_agent g)) = b"
    by (simp add: execute_action_def turn_cases)
  then show ?thesis using b(3) by simp
qed

text \<open>
  Neither agent considers the reversal of the current direction (and \<open>Snake.move_*\<close>
  would ignore it), so when the reversal alone passes the check the snake keeps or takes
  a lethal direction. Here the snake heads up in the corner (0, 0) with its second
  segment to the right: down is free; the agent of allagents.py turns left into the
  wall, and the agent of reflexagent.py requests down in its fallback, which
  \<open>move_down\<close> ignores, so the snake goes on up into the wall.
\<close>

lemma utility_agents_never_reverse:
  "\<not> is_potential_move_colliding
       \<lparr>screen_width = 1000, screen_height = 800,
        game_snake = \<lparr>snake_direction = Up, snake_length = 2, snake_x = [0, 40], snake_y = [0, 0]\<rparr>,
        apple_x = 120, apple_y = 120\<rparr>
       (get_potential_head
         \<lparr>screen_width = 1000, screen_height = 800,
        game_snake = \<lparr>snake_direction = Up, snake_length = 2, snake_x = [0, 40], snake_y = [0, 0]\<rparr>,
        apple_x = 120, apple_y = 120\<rparr> Down) \<and>
   snake_direction (game_snake (snd (UtilityBasedAgent_make_move \<lparr>ua_previous_direction = None\<rparr>
       \<lparr>screen_width = 1000, screen_height = 800,
        game_snake = \<lparr>snake_direction = Up, snake_length = 2, snake_x = [0, 40], snake_y = [0, 0]\<rparr>,
        apple_x = 120, apple_y = 120\<rparr>))) = Left \<and>
   is_potential_move_colliding
       \<lparr>screen_width = 1000, screen_height = 800,
        game_snake = \<lparr>snake_direction = Up, snake_length = 2, snake_x = [0, 40], snake_y = [0, 0]\<rparr>,
        apple_x = 120, apple_y = 120\<rparr>
       (get_potential_head
         \<lparr>screen_width = 1000, screen_height = 800,
        game_snake = \<lparr>snake_direction = Up, snake_length = 2, snake_x = [0, 40], snake_y = [0, 0]\<rparr>,
        apple_x = 120, apple_y = 120\<rparr> Left) \<and>
   snake_direction (game_snake (Game_utility_agent
       \<lparr>screen_width = 1000, screen_height = 800,
        game_snake = \<lparr>snake_direction = Up, snake_length = 2, snake_x = [0, 40], snake_y = [0, 0]\<rparr>,
        apple_x = 120, apple_y = 120\<rparr>)) = Up \<and>
   is_potential_move_colliding
       \<lparr>screen_width = 1000, screen_height = 800,
        game_snake = \<lparr>snake_direction = Up, snake_length = 2, snake_x = [0, 40], snake_y = [0, 0]\<rparr>,
        apple_x = 120, apple_y = 120\<rparr>
       (get_potential_head
         \<lparr>screen_width = 1000, screen_height = 800,
        game_snake = \<lparr>snake_direction = Up, snake_length = 2, snake_x = [0, 40], snake_y = [0, 0]\<rparr>,
        apple_x = 120, apple_y = 120\<rparr> Up)"
  by (simp add: UtilityBasedAgent_make_move_def calculate_utility_def
      Game_utility_agent_def best_action_loop_def evaluate_action_utility_def
      execute_action_def is_potential_move_colliding_def
      get_potential_head_def in_bounds_def body_hit_def is_collision_def SIZE_def Let_def
      move_left_def move_down_def upt_rec)

text \<open>
  C5 fails in the code, and not only on the reversal. \<open>_is_potential_move_colliding\<close>
  tests the next head cell against the 40-pixel box of every segment from index 1, and
  after an apple the last segment is the placeholder (-1, -1) of \<open>increase_length\<close>,
  whose box contains the cell (0, 0). So right after eating, the agents take the free
  corner cell for a collision.

  For allagents.py: seven ticks from the initial snake, the last three eating an apple,
  give the snake heading up at (0, 40) with its body at (0, 80), (40, 80), (40, 40) and
  the placeholder; the game is still on. Up is not the reversal; its cell (0, 0) is in
  bounds and is the position of no segment, and after \<open>walk\<close> in that direction
  neither \<open>self_collision\<close> nor \<open>check_wall_collision\<close> holds. The check flags it
  all the same, all three candidates score -10000, and \<open>UtilityBasedAgent.make_move\<close> turns
  left: after \<open>walk\<close> the head is at (-40, 40) and \<open>check_wall_collision\<close> holds.

  For reflexagent.py: seven ticks give the snake heading up at (40, 0) with its body at
  (40, 40), (80, 40), (80, 0) and the placeholder; the game is still on. Left is not the
  reversal, leads to
  the free cell (0, 0), and the game goes on after it. \<open>Game.utility_agent\<close> scores
  all three candidates \<open>-inf\<close>, its fallback finds no direction that passes the check,
  and the snake goes on up: after \<open>walk\<close> the head is at (40, -40) and
  \<open>check_wall_collision\<close> holds.
\<close>

theorem utility_agent_takes_avoidable_collision:
  "run_ticks [(None, True), (Some Right, False), (Some Up, False), (Some Left, False),
              (Some Down, True), (Some Left, True), (Some Up, True)] snake_init
     = Inr \<lparr>snake_direction = Up, snake_length = 5,
          snake_x = [0, 0, 40, 40, - 1], snake_y = [40, 80, 80, 40, - 1]\<rparr> \<and>
   \<not> self_collision \<lparr>snake_direction = Up, snake_length = 5,
          snake_x = [0, 0, 40, 40, - 1], snake_y = [40, 80, 80, 40, - 1]\<rparr> \<and>
   \<not> check_wall_collision \<lparr>screen_width = 1000, screen_height = 800,
        game_snake = \<lparr>snake_direction = Up, snake_length = 5,
          snake_x = [0, 0, 40, 40, - 1], snake_y = [40, 80, 80, 40, - 1]\<rparr>,
        apple_x = 120, apple_y = 120\<rparr> \<and>
   Up \<noteq> opposite (snake_direction \<lparr>snake_direction = Up, snake_length = 5,
          snake_x = [0, 0, 40, 40, - 1], snake_y = [40, 80, 80, 40, - 1]\<rparr>) \<and>
   get_potential_head \<lparr>screen_width = 1000, screen_height = 800,
        game_snake = \<lparr>snake_direction = Up, snake_length = 5,
          snake_x = [0, 0, 40, 40, - 1], snake_y = [40, 80, 80, 40, - 1]\<rparr>,
        apple_x = 120, apple_y = 120\<rparr> Up = (0, 0) \<and>
   in_bounds \<lparr>screen_width = 1000, screen_height = 800,
        game_snake = \<lparr>snake_direction = Up, snake_length = 5,
          snake_x = [0, 0, 40, 40, - 1], snake_y = [40, 80, 80, 40, - 1]\<rparr>,
        apple_x = 120, apple_y = 120\<rparr> (0, 0) \<and>
   \<not> segment_at \<lparr>snake_direction = Up, snake_length = 5,
          snake_x = [0, 0, 40, 40, - 1], snake_y = [40, 80, 80, 40, - 1]\<rparr> 0 5 0 0 \<and>
   walk (turn Up \<lparr>snake_direction = Up, snake_length = 5,
          snake_x = [0, 0, 40, 40, - 1], snake_y = [40, 80, 80, 40, - 1]\<rparr>)
     = Inr \<lparr>snake_direction = Up, snake_length = 5,
          snake_x = [0, 0, 0, 40, 40], snake_y = [0, 40, 80, 80, 40]\<rparr> \<and>
   \<not> self_collision \<lparr>snake_direction = Up, snake_length = 5,
          snake_x = [0, 0, 0, 40, 40], snake_y = [0, 40, 80, 80, 40]\<rparr> \<and>
   \<not> check_wall_collision \<lparr>screen_width = 1000, screen_height = 800,
        game_snake = \<lparr>snake_direction = Up, snake_length = 5,
          snake_x = [0, 0, 0, 40, 40], snake_y = [0, 40, 80, 80, 40]\<rparr>,
        apple_x = 120, apple_y = 120\<rparr> \<and>
   is_potential_move_colliding \<lparr>screen_width = 1000, screen_height = 800,
        game_snake = \<lparr>snake_direction = Up, snake_length = 5,
          snake_x = [0, 0, 40, 40, - 1], snake_y = [40, 80, 80, 40, - 1]\<rparr>,
        apple_x = 120, apple_y = 120\<rparr> (0, 0) \<and>
   snake_direction (game_snake (snd (UtilityBasedAgent_make_move
      \<lparr>ua_previous_direction = Some Up\<rparr>
      \<lparr>screen_width = 1000, screen_height = 800,
        game_snake = \<lparr>snake_direction = Up, snake_length = 5,
          snake_x = [0, 0, 40, 40, - 1], snake_y = [40, 80, 80, 40, - 1]\<rparr>,
        apple_x = 120, apple_y = 120\<rparr>))) = Left \<and>
   walk (game_snake (snd (UtilityBasedAgent_make_move
      \<lparr>ua_previous_direction = Some Up\<rparr>
      \<lparr>screen_width = 1000, screen_height = 800,
        game_snake = \<lparr>snake_direction = Up, snake_length = 5,
          snake_x = [0, 0, 40, 40, - 1], snake_y = [40, 80, 80, 40, - 1]\<rparr>,
        apple_x = 120, apple_y = 120\<rparr>)))
     = Inr \<lparr>snake_direction = Left, snake_length = 5,
          snake_x = [- 40, 0, 0, 40, 40], snake_y = [40, 40, 80, 80, 40]\<rparr> \<and>
   check_wall_collision \<lparr>screen_width = 1000, screen_height = 800,
        game_snake = \<lparr>snake_direction = Left, snake_length = 5,
          snake_x = [- 40, 0, 0, 40, 40], snake_y = [40, 40, 80, 80, 40]\<rparr>,
        apple_x = 120, apple_y = 120\<rparr> \<and>
   run_ticks [(Some Left, True), (Some Up, False), (Some Right, False), (None, False),
              (Some Down, True), (Some Left, True), (Some Up, True)] snake_init
     = Inr \<lparr>snake_direction = Up, snake_length = 5,
          snake_x = [40, 40, 80, 80, - 1], snake_y = [0, 40, 40, 0, - 1]\<rparr> \<and>
   \<not> self_collision \<lparr>snake_direction = Up, snake_length = 5,
          snake_x = [40, 40, 80, 80, - 1], snake_y = [0, 40, 40, 0, - 1]\<rparr> \<and>
   \<not> check_wall_collision \<lparr>screen_width = 1000, screen_height = 800,
        game_snake = \<lparr>snake_direction = Up, snake_length = 5,
          snake_x = [40, 40, 80, 80, - 1], snake_y = [0, 40, 40, 0, - 1]\<rparr>,
        apple_x = 120, apple_y = 120\<rparr> \<and>
   Left \<noteq> opposite (snake_direction \<lparr>snake_direction = Up, snake_length = 5,
          snake_x = [40, 40, 80, 80, - 1], snake_y = [0, 40, 40, 0, - 1]\<rparr>) \<and>
   get_potential_head \<lparr>screen_width = 1000, screen_height = 800,
        game_snake = \<lparr>snake_direction = Up, snake_length = 5,
          snake_x = [40, 40, 80, 80, - 1], snake_y = [0, 40, 40, 0, - 1]\<rparr>,
        apple_x = 120, apple_y = 120\<rparr> Left = (0, 0) \<and>
   in_bounds \<lparr>screen_width = 1000, screen_height = 800,
        game_snake = \<lparr>snake_direction = Up, snake_length = 5,
          snake_x = [40, 40, 80, 80, - 1], snake_y = [0, 40, 40, 0, - 1]\<rparr>,
        apple_x = 120, apple_y = 120\<rparr> (0, 0) \<and>
   \<not> segment_at \<lparr>snake_direction = Up, snake_length = 5,
          snake_x = [40, 40, 80, 80, - 1], snake_y = [0, 40, 40, 0, - 1]\<rparr> 0 5 0 0 \<and>
   walk (turn Left \<lparr>snake_direction = Up, snake_length = 5,
          snake_x = [40, 40, 80, 80, - 1], snake_y = [0, 40, 40, 0, - 1]\<rparr>)
     = Inr \<lparr>snake_direction = Left, snake_length = 5,
          snake_x = [0, 40, 40, 80, 80], snake_y = [0, 0, 40, 40, 0]\<rparr> \<and>
   \<not> self_collision \<lparr>snake_direction = Left, snake_length = 5,
          snake_x = [0, 40, 40, 80, 80], snake_y = [0, 0, 40, 40, 0]\<rparr> \<and>
   \<not> check_wall_collision \<lparr>screen_width = 1000, screen_height = 800,
        game_snake = \<lparr>snake_direction = Left, snake_length = 5,
          snake_x = [0, 40, 40, 80, 80], snake_y = [0, 0, 40, 40, 0]\<rparr>,
        apple_x = 120, apple_y = 120\<rparr> \<and>
   is_potential_move_colliding \<lparr>screen_width = 1000, screen_height = 800,
        game_snake = \<lparr>snake_direction = Up, snake_length = 5,
          snake_x = [40, 40, 80, 80, - 1], snake_y = [0, 40, 40, 0, - 1]\<rparr>,
        apple_x = 120, apple_y = 120\<rparr> (0, 0) \<and>
   snake_direction (game_snake (Game_utility_agent
      \<lparr>screen_width = 1000, screen_height = 800,
        game_snake = \<lparr>snake_direction = Up, snake_length = 5,
          snake_x = [40, 40, 80, 80, - 1], snake_y = [0, 40, 40, 0, - 1]\<rparr>,
        apple_x = 120, apple_y = 120\<rparr>)) = Up \<and>
   walk (game_snake (Game_utility_agent
      \<lparr>screen_width = 1000, screen_height = 800,
        game_snake = \<lparr>snake_direction = Up, snake_length = 5,
          snake_x = [40, 40, 80, 80, - 1], snake_y = [0, 40, 40, 0, - 1]\<rparr>,
        apple_x = 120, apple_y = 120\<rparr>))
     = Inr \<lparr>snake_direction = Up, snake_length = 5,
          snake_x = [40, 40, 40, 80, 80], snake_y = [- 40, 0, 40, 40, 0]\<rparr> \<and>
   check_wall_collision \<lparr>screen_width = 1000, screen_height = 800,
        game_snake = \<lparr>snake_direction = Up, snake_length = 5,
          snake_x = [40, 40, 40, 80, 80], snake_y = [- 40, 0, 40, 40, 0]\<rparr>,
        apple_x = 120, apple_y = 120\<rparr>"
proof -
  have reach_a: "run_ticks [(None, True), (Some Right, False), (Some Up, False), (Some Left, False),
              (Some Down, True), (Some Left, True), (Some Up, True)] snake_init
     = Inr \<lparr>snake_direction = Up, snake_length = 5,
          snake_x = [0, 0, 40, 40, - 1], snake_y = [40, 80, 80, 40, - 1]\<rparr>"
    and reach_b: "run_ticks [(Some Left, True), (Some Up, False), (Some Right, False), (None, False),
              (Some Down, True), (Some Left, True), (Some Up, True)] snake_init
     = Inr \<lparr>snake_direction = Up, snake_length = 5,
          snake_x = [40, 40, 80, 80, - 1], snake_y = [0, 40, 40, 0, - 1]\<rparr>"
    by (simp_all add: snake_init_def walk_def increase_length_def move_left_def move_right_def
        move_up_def move_down_def SIZE_def)
  have free_a: "Up \<noteq> opposite (snake_direction \<lparr>snake_direction = Up, snake_length = 5,
          snake_x = [0, 0, 40, 40, - 1], snake_y = [40, 80, 80, 40, - 1]\<rparr>)"
    "\<not> self_collision \<lparr>snake_direction = Up, snake_length = 5,
          snake_x = [0, 0, 40, 40, - 1], snake_y = [40, 80, 80, 40, - 1]\<rparr>"
    "\<not> check_wall_collision \<lparr>screen_width = 1000, screen_height = 800,
        game_snake = \<lparr>snake_direction = Up, snake_length = 5,
          snake_x = [0, 0, 40, 40, - 1], snake_y = [40, 80, 80, 40, - 1]\<rparr>,
        apple_x = 120, apple_y = 120\<rparr>"
    "get_potential_head \<lparr>screen_width = 1000, screen_height = 800,
        game_snake = \<lparr>snake_direction = Up, snake_length = 5,
          snake_x = [0, 0, 40, 40, - 1], snake_y = [40, 80, 80, 40, - 1]\<rparr>,
        apple_x = 120, apple_y = 120\<rparr> Up = (0, 0)"
    "in_bounds \<lparr>screen_width = 1000, screen_height = 800,
        game_snake = \<lparr>snake_direction = Up, snake_length = 5,
          snake_x = [0, 0, 40, 40, - 1], snake_y = [40, 80, 80, 40, - 1]\<rparr>,
        apple_x = 120, apple_y = 120\<rparr> (0, 0)"
    "\<not> segment_at \<lparr>snake_direction = Up, snake_length = 5,
          snake_x = [0, 0, 40, 40, - 1], snake_y = [40, 80, 80, 40, - 1]\<rparr> 0 5 0 0"
    "walk (turn Up \<lparr>snake_direction = Up, snake_length = 5,
          snake_x = [0, 0, 40, 40, - 1], snake_y = [40, 80, 80, 40, - 1]\<rparr>)
     = Inr \<lparr>snake_direction = Up, snake_length = 5,
          snake_x = [0, 0, 0, 40, 40], snake_y = [0, 40, 80, 80, 40]\<rparr>"
    "\<not> self_collision \<lparr>snake_direction = Up, snake_length = 5,
          snake_x = [0, 0, 0, 40, 40], snake_y = [0, 40, 80, 80, 40]\<rparr>"
    "\<not> check_wall_collision \<lparr>screen_width = 1000, screen_height = 800,
        game_snake = \<lparr>snake_direction = Up, snake_length = 5,
          snake_x = [0, 0, 0, 40, 40], snake_y = [0, 40, 80, 80, 40]\<rparr>,
        apple_x = 120, apple_y = 120\<rparr>"
    by (simp_all add: in_bounds_def get_potential_head_def segment_at_def walk_def move_up_def
        self_collision_def body_hit_def is_collision_def check_wall_collision_def SIZE_def
        upt_rec eval_nat_numeral)
  have agent_a: "is_potential_move_colliding \<lparr>screen_width = 1000, screen_height = 800,
        game_snake = \<lparr>snake_direction = Up, snake_length = 5,
          snake_x = [0, 0, 40, 40, - 1], snake_y = [40, 80, 80, 40, - 1]\<rparr>,
        apple_x = 120, apple_y = 120\<rparr> (0, 0)"
    "snake_direction (game_snake (snd (UtilityBasedAgent_make_move
      \<lparr>ua_previous_direction = Some Up\<rparr>
      \<lparr>screen_width = 1000, screen_height = 800,
        game_snake = \<lparr>snake_direction = Up, snake_length = 5,
          snake_x = [0, 0, 40, 40, - 1], snake_y = [40, 80, 80, 40, - 1]\<rparr>,
        apple_x = 120, apple_y = 120\<rparr>))) = Left"
    "walk (game_snake (snd (UtilityBasedAgent_make_move
      \<lparr>ua_previous_direction = Some Up\<rparr>
      \<lparr>screen_width = 1000, screen_height = 800,
        game_snake = \<lparr>snake_direction = Up, snake_length = 5,
          snake_x = [0, 0, 40, 40, - 1], snake_y = [40, 80, 80, 40, - 1]\<rparr>,
        apple_x = 120, apple_y = 120\<rparr>)))
     = Inr \<lparr>snake_direction = Left, snake_length = 5,
          snake_x = [- 40, 0, 0, 40, 40], snake_y = [40, 40, 80, 80, 40]\<rparr>"
    "check_wall_collision \<lparr>screen_width = 1000, screen_height = 800,
        game_snake = \<lparr>snake_direction = Left, snake_length = 5,
          snake_x = [- 40, 0, 0, 40, 40], snake_y = [40, 40, 80, 80, 40]\<rparr>,
        apple_x = 120, apple_y = 120\<rparr>"
    by (simp_all add: UtilityBasedAgent_make_move_def calculate_utility_def
      is_potential_move_colliding_def get_potential_head_def in_bounds_def body_hit_def
      is_collision_def SIZE_def Let_def move_left_def walk_def check_wall_collision_def
      upt_rec eval_nat_numeral)
  have free_b: "Left \<noteq> opposite (snake_direction \<lparr>snake_direction = Up, snake_length = 5,
          snake_x = [40, 40, 80, 80, - 1], snake_y = [0, 40, 40, 0, - 1]\<rparr>)"
    "\<not> self_collision \<lparr>snake_direction = Up, snake_length = 5,
          snake_x = [40, 40, 80, 80, - 1], snake_y = [0, 40, 40, 0, - 1]\<rparr>"
    "\<not> check_wall_collision \<lparr>screen_width = 1000, screen_height = 800,
        game_snake = \<lparr>snake_direction = Up, snake_length = 5,
          snake_x = [40, 40, 80, 80, - 1], snake_y = [0, 40, 40, 0, - 1]\<rparr>,
        apple_x = 120, apple_y = 120\<rparr>"
    "get_potential_head \<lparr>screen_width = 1000, screen_height = 800,
        game_snake = \<lparr>snake_direction = Up, snake_length = 5,
          snake_x = [40, 40, 80, 80, - 1], snake_y = [0, 40, 40, 0, - 1]\<rparr>,
        apple_x = 120, apple_y = 120\<rparr> Left = (0, 0)"
    "in_bounds \<lparr>screen_width = 1000, screen_height = 800,
        game_snake = \<lparr>snake_direction = Up, snake_length = 5,
          snake_x = [40, 40, 80, 80, - 1], snake_y = [0, 40, 40, 0, - 1]\<rparr>,
        apple_x = 120, apple_y = 120\<rparr> (0, 0)"
    "\<not> segment_at \<lparr>snake_direction = Up, snake_length = 5,
          snake_x = [40, 40, 80, 80, - 1], snake_y = [0, 40, 40, 0, - 1]\<rparr> 0 5 0 0"
    "walk (turn Left \<lparr>snake_direction = Up, snake_length = 5,
          snake_x = [40, 40, 80, 80, - 1], snake_y = [0, 40, 40, 0, - 1]\<rparr>)
     = Inr \<lparr>snake_direction = Left, snake_length = 5,
          snake_x = [0, 40, 40, 80, 80], snake_y = [0, 0, 40, 40, 0]\<rparr>"
    "\<not> self_collision \<lparr>snake_direction = Left, snake_length = 5,
          snake_x = [0, 40, 40, 80, 80], snake_y = [0, 0, 40, 40, 0]\<rparr>"
    "\<not> check_wall_collision \<lparr>screen_width = 1000, screen_height = 800,
        game_snake = \<lparr>snake_direction = Left, snake_length = 5,
          snake_x = [0, 40, 40, 80, 80], snake_y = [0, 0, 40, 40, 0]\<rparr>,
        apple_x = 120, apple_y = 120\<rparr>"
    by (simp_all add: in_bounds_def get_potential_head_def segment_at_def walk_def move_left_def
        self_collision_def body_hit_def is_collision_def check_wall_collision_def SIZE_def
        upt_rec eval_nat_numeral)
  have agent_b: "is_potential_move_colliding \<lparr>screen_width = 1000, screen_height = 800,
        game_snake = \<lparr>snake_direction = Up, snake_length = 5,
          snake_x = [40, 40, 80, 80, - 1], snake_y = [0, 40, 40, 0, - 1]\<rparr>,
        apple_x = 120, apple_y = 120\<rparr> (0, 0)"
    "snake_direction (game_snake (Game_utility_agent
      \<lparr>screen_width = 1000, screen_height = 800,
        game_snake = \<lparr>snake_direction = Up, snake_length = 5,
          snake_x = [40, 40, 80, 80, - 1], snake_y = [0, 40, 40, 0, - 1]\<rparr>,
        apple_x = 120, apple_y = 120\<rparr>)) = Up"
    "walk (game_snake (Game_utility_agent
      \<lparr>screen_width = 1000, screen_height = 800,
        game_snake = \<lparr>snake_direction = Up, snake_length = 5,
          snake_x = [40, 40, 80, 80, - 1], snake_y = [0, 40, 40, 0, - 1]\<rparr>,
        apple_x = 120, apple_y = 120\<rparr>))
     = Inr \<lparr>snake_direction = Up, snake_length = 5,
          snake_x = [40, 40, 40, 80, 80], snake_y = [- 40, 0, 40, 40, 0]\<rparr>"
    "check_wall_collision \<lparr>screen_width = 1000, screen_height = 800,
        game_snake = \<lparr>snake_direction = Up, snake_length = 5,
          snake_x = [40, 40, 40, 80, 80], snake_y = [- 40, 0, 40, 40, 0]\<rparr>,
        apple_x = 120, apple_y = 120\<rparr>"
    by (simp_all add: Game_utility_agent_def best_action_loop_def evaluate_action_utility_def
      execute_action_def is_potential_move_colliding_def
      get_potential_head_def in_bounds_def body_hit_def is_collision_def SIZE_def Let_def
      walk_def check_wall_collision_def upt_rec eval_nat_numeral)
  show ?thesis
    by (intro conjI reach_a reach_b free_a free_b agent_a agent_b)
qed

section \<open>Shortest paths found by the breadth-first search\<close>

text \<open>
  Levels of a breadth-first search over the grid: a cell is reached at level \<open>b\<close> when
  it is a seed, and one level later from a reached cell by one step into a cell that
  passes the test \<open>ok\<close>. Each cell carries the label of the seed it descends from.
\<close>

inductive reach :: "(cell \<Rightarrow> bool) \<Rightarrow> (cell \<times> 'p) set \<Rightarrow> nat \<Rightarrow> nat \<Rightarrow> cell \<Rightarrow> 'p \<Rightarrow> bool"
  for ok :: "cell \<Rightarrow> bool" and seeds :: "(cell \<times> 'p) set" and b :: nat where
  reach_seed: "(c, p) \<in> seeds \<Longrightarrow> reach ok seeds b b c p"
| reach_step: "reach ok seeds b n c p \<Longrightarrow> ok (step c d) \<Longrightarrow> reach ok seeds b (Suc n) (step c d) p"

lemma reach_ge_base: "reach ok seeds b n c p \<Longrightarrow> b \<le> n"
  by (induction rule: reach.induct) auto

lemma reach_base_seed:
  assumes "reach ok seeds b b c p"
  shows "(c, p) \<in> seeds"
  using assms by cases (auto dest: reach_ge_base)

lemma reach_Suc_cases:
  assumes "reach ok seeds b (Suc n) c p" "b \<le> n"
  shows "\<exists>c' d. reach ok seeds b n c' p \<and> c = step c' d \<and> ok c"
  using assms by cases auto

text \<open>
  The invariant of a queue-based search with depth cap \<open>M\<close> at current level \<open>k\<close>:
  queue entries carry their true level, which is \<open>k\<close> or \<open>k + 1\<close> in queue order;
  every cell of level at most \<open>k\<close> has been visited; every neighbour of a level-\<open>k\<close>
  cell that has left the queue has been visited; and every visited cell is still queued
  or has been dequeued, satisfied \<open>P\<close> then, and has level at most \<open>k\<close>.
\<close>

definition level_inv ::
  "(cell \<Rightarrow> bool) \<Rightarrow> (cell \<times> 'p) set \<Rightarrow> nat \<Rightarrow> nat \<Rightarrow> (cell \<Rightarrow> bool) \<Rightarrow>
   (cell \<times> 'p \<times> nat) list \<Rightarrow> cell set \<Rightarrow> nat \<Rightarrow> bool" where
  "level_inv ok seeds b M P q V k \<longleftrightarrow>
     b \<le> k \<and> k \<le> M \<and>
     (\<forall>c p n. (c, p, n) \<in> set q \<longrightarrow>
        reach ok seeds b n c p \<and> (n = k \<or> n = Suc k) \<and> n \<le> M \<and>
        (\<forall>m p'. reach ok seeds b m c p' \<longrightarrow> n \<le> m)) \<and>
     sorted (map (\<lambda>e. snd (snd e)) q) \<and>
     (\<forall>n c p. n \<le> k \<longrightarrow> reach ok seeds b n c p \<longrightarrow> c \<in> V) \<and>
     (k < M \<longrightarrow> (\<forall>c p d. reach ok seeds b k c p \<longrightarrow> ok (step c d) \<longrightarrow>
                     (\<forall>p'. (c, p', k) \<notin> set q) \<longrightarrow> step c d \<in> V)) \<and>
     (\<forall>c\<in>V. (\<exists>p n. (c, p, n) \<in> set q) \<or>
             (P c \<and> (\<exists>n p. n \<le> k \<and> reach ok seeds b n c p)))"

lemma level_inv_init:
  assumes "b \<le> M"
  shows "level_inv ok (set sl) b M P (map (\<lambda>(c, p). (c, p, b)) sl) (fst ` set sl) b"
proof -
  have r: "\<And>n c p. n \<le> b \<Longrightarrow> reach ok (set sl) b n c p \<Longrightarrow> (c, p) \<in> set sl"
    using reach_ge_base reach_base_seed by (metis le_antisym)
  have s: "map (\<lambda>e. snd (snd e)) (map (\<lambda>(c, p). (c, p, b)) sl) = replicate (length sl) b"
    by (induction sl) auto
  show ?thesis
    unfolding level_inv_def
  proof (intro conjI)
    show "sorted (map (\<lambda>e. snd (snd e)) (map (\<lambda>(c, p). (c, p, b)) sl))"
      unfolding s by (simp add: sorted_replicate)
    show "\<forall>c p n. (c, p, n) \<in> set (map (\<lambda>(c, p). (c, p, b)) sl) \<longrightarrow>
        reach ok (set sl) b n c p \<and> (n = b \<or> n = Suc b) \<and> n \<le> M \<and>
        (\<forall>m p'. reach ok (set sl) b m c p' \<longrightarrow> n \<le> m)"
      using assms by (auto intro: reach_seed dest: reach_ge_base)
    show "\<forall>n c p. n \<le> b \<longrightarrow> reach ok (set sl) b n c p \<longrightarrow> c \<in> fst ` set sl"
      using r by force
    show "b < M \<longrightarrow> (\<forall>c p d. reach ok (set sl) b b c p \<longrightarrow> ok (step c d) \<longrightarrow>
                     (\<forall>p'. (c, p', b) \<notin> set (map (\<lambda>(c, p). (c, p, b)) sl)) \<longrightarrow>
                     step c d \<in> fst ` set sl)"
      using r[OF le_refl] by force
    show "\<forall>c\<in>fst ` set sl. (\<exists>p n. (c, p, n) \<in> set (map (\<lambda>(c, p). (c, p, b)) sl)) \<or>
             (P c \<and> (\<exists>n p. n \<le> b \<and> reach ok (set sl) b n c p))"
      by force
  qed (use assms in simp_all)
qed

lemma level_inv_shift:
  assumes inv: "level_inv ok seeds b M P ((c0, p0, Suc k) # rest) V k"
  shows "level_inv ok seeds b M P ((c0, p0, Suc k) # rest) V (Suc k)"
proof -
  let ?q = "(c0, p0, Suc k) # rest"
  note I = inv[unfolded level_inv_def]
  have ent: "\<And>c p n. (c, p, n) \<in> set ?q \<Longrightarrow>
        reach ok seeds b n c p \<and> (n = k \<or> n = Suc k) \<and> n \<le> M \<and>
        (\<forall>m p'. reach ok seeds b m c p' \<longrightarrow> n \<le> m)"
    using I by blast
  have srt: "sorted (map (\<lambda>e. snd (snd e)) ?q)" using I by blast
  have all_suc: "\<And>c p n. (c, p, n) \<in> set ?q \<Longrightarrow> n = Suc k"
  proof -
    fix c p n assume m: "(c, p, n) \<in> set ?q"
    then have "n = Suc k \<or> (c, p, n) \<in> set rest" by auto
    moreover have "(c, p, n) \<in> set rest \<Longrightarrow> Suc k \<le> n"
      using srt by (force simp: )
    ultimately show "n = Suc k" using ent[OF m] by auto
  qed
  have kM: "Suc k \<le> M" using ent[of c0 p0 "Suc k"] by simp
  then have kltM: "k < M" by simp
  have bk: "b \<le> k" using I by blast
  have lev: "\<And>n c p. n \<le> k \<Longrightarrow> reach ok seeds b n c p \<Longrightarrow> c \<in> V" using I by blast
  have fr: "\<And>c p d. reach ok seeds b k c p \<Longrightarrow> ok (step c d) \<Longrightarrow>
                     (\<forall>p'. (c, p', k) \<notin> set ?q) \<Longrightarrow> step c d \<in> V"
    using I kltM by blast
  have nok: "\<And>c p'. (c, p', k) \<notin> set ?q" using all_suc by fastforce
  have lev': "\<And>n c p. n \<le> Suc k \<Longrightarrow> reach ok seeds b n c p \<Longrightarrow> c \<in> V"
  proof -
    fix n c p assume n: "n \<le> Suc k" and r: "reach ok seeds b n c p"
    show "c \<in> V"
    proof (cases "n \<le> k")
      case True
      then show ?thesis using lev r by blast
    next
      case False
      then have nk: "n = Suc k" using n by simp
      from reach_Suc_cases[OF r[unfolded nk] bk] obtain c' d where
        "reach ok seeds b k c' p" "c = step c' d" "ok c" by blast
      then show ?thesis using fr nok by blast
    qed
  qed
  have proc: "\<forall>c\<in>V. (\<exists>p n. (c, p, n) \<in> set ?q) \<or>
             (P c \<and> (\<exists>n p. n \<le> k \<and> reach ok seeds b n c p))"
    using I by blast
  have fr': "Suc k < M \<longrightarrow> (\<forall>c p d. reach ok seeds b (Suc k) c p \<longrightarrow> ok (step c d) \<longrightarrow>
                     (\<forall>p'. (c, p', Suc k) \<notin> set ?q) \<longrightarrow> step c d \<in> V)"
  proof (intro impI allI)
    fix c p d
    assume r: "reach ok seeds b (Suc k) c p" and o: "ok (step c d)"
      and nq: "\<forall>p'. (c, p', Suc k) \<notin> set ?q"
    have "c \<in> V" using lev'[OF le_refl r] .
    moreover have "\<not> (\<exists>p n. (c, p, n) \<in> set ?q)" using nq all_suc by blast
    ultimately obtain n p' where "n \<le> k" "reach ok seeds b n c p'" using proc by blast
    then have "Suc n \<le> Suc k" "reach ok seeds b (Suc n) (step c d) p'"
      using o by (auto intro: reach_step)
    then show "step c d \<in> V" using lev' by blast
  qed
  show ?thesis
    unfolding level_inv_def
  proof (intro conjI)
    show "\<forall>c p n. (c, p, n) \<in> set ?q \<longrightarrow>
        reach ok seeds b n c p \<and> (n = Suc k \<or> n = Suc (Suc k)) \<and> n \<le> M \<and>
        (\<forall>m p'. reach ok seeds b m c p' \<longrightarrow> n \<le> m)"
      using ent all_suc by blast
    show "\<forall>c\<in>V. (\<exists>p n. (c, p, n) \<in> set ?q) \<or>
             (P c \<and> (\<exists>n p. n \<le> Suc k \<and> reach ok seeds b n c p))"
      using proc by (meson le_SucI)
  qed (use bk kM srt lev' fr' in auto)
qed


lemma level_invD:
  assumes "level_inv ok seeds b M P q V k"
  shows "b \<le> k" and "k \<le> M"
    and "\<And>c p n. (c, p, n) \<in> set q \<Longrightarrow>
        reach ok seeds b n c p \<and> (n = k \<or> n = Suc k) \<and> n \<le> M \<and>
        (\<forall>m p'. reach ok seeds b m c p' \<longrightarrow> n \<le> m)"
    and "sorted (map (\<lambda>e. snd (snd e)) q)"
    and "\<And>n c p. n \<le> k \<Longrightarrow> reach ok seeds b n c p \<Longrightarrow> c \<in> V"
    and "\<And>c p d. k < M \<Longrightarrow> reach ok seeds b k c p \<Longrightarrow> ok (step c d) \<Longrightarrow>
                     (\<forall>p'. (c, p', k) \<notin> set q) \<Longrightarrow> step c d \<in> V"
    and "\<And>c. c \<in> V \<Longrightarrow> (\<exists>p n. (c, p, n) \<in> set q) \<or>
             (P c \<and> (\<exists>n p. n \<le> k \<and> reach ok seeds b n c p))"
  using assms unfolding level_inv_def by blast+

lemma level_inv_pop_cap:
  assumes inv: "level_inv ok seeds b M P ((c0, p0, k) # rest) V k"
    and P: "P c0" and cap: "M \<le> k"
  shows "level_inv ok seeds b M P rest V k"
proof -
  note D = level_invD[OF inv]
  have r0: "reach ok seeds b k c0 p0" using D(3)[of c0 p0 k] by simp
  have proc: "\<forall>c\<in>V. (\<exists>p n. (c, p, n) \<in> set rest) \<or>
             (P c \<and> (\<exists>n p. n \<le> k \<and> reach ok seeds b n c p))"
  proof
    fix c assume "c \<in> V"
    then consider "\<exists>p n. (c, p, n) \<in> set ((c0, p0, k) # rest)"
      | "P c \<and> (\<exists>n p. n \<le> k \<and> reach ok seeds b n c p)" using D(7) by blast
    then show "(\<exists>p n. (c, p, n) \<in> set rest) \<or>
             (P c \<and> (\<exists>n p. n \<le> k \<and> reach ok seeds b n c p))"
    proof cases
      case 1
      then show ?thesis using P r0 by auto
    next
      case 2
      then show ?thesis by blast
    qed
  qed
  have srt: "sorted (map (\<lambda>e. snd (snd e)) rest)" using D(4) by simp
  have ent: "\<forall>c p n. (c, p, n) \<in> set rest \<longrightarrow>
        reach ok seeds b n c p \<and> (n = k \<or> n = Suc k) \<and> n \<le> M \<and>
        (\<forall>m p'. reach ok seeds b m c p' \<longrightarrow> n \<le> m)"
    using D(3) by (meson list.set_intros(2))
  show ?thesis
    unfolding level_inv_def
    using D(1,2) ent srt D(5) cap proc by (intro conjI) (blast | linarith)+
qed

lemma level_inv_pop_expand:
  assumes inv: "level_inv ok seeds b M P ((c0, p0, k) # rest) V k"
    and P: "P c0" and cap: "k < M"
    and news: "\<forall>c p n. (c, p, n) \<in> set news \<longrightarrow>
                 (\<exists>d. c = step c0 d) \<and> ok c \<and> c \<notin> V \<and> p = p0 \<and> n = Suc k"
    and cov: "\<forall>d. ok (step c0 d) \<longrightarrow> step c0 d \<in> V \<union> fst ` set news"
  shows "level_inv ok seeds b M P (rest @ news) (V \<union> fst ` set news) k"
proof -
  note D = level_invD[OF inv]
  have r0: "reach ok seeds b k c0 p0" using D(3)[of c0 p0 k] by simp
  have lev: "\<And>n c p. n \<le> k \<Longrightarrow> reach ok seeds b n c p \<Longrightarrow> c \<in> V" using D(5) by blast
  have ent: "\<And>c p n. (c, p, n) \<in> set rest \<Longrightarrow>
        reach ok seeds b n c p \<and> (n = k \<or> n = Suc k) \<and> n \<le> M \<and>
        (\<forall>m p'. reach ok seeds b m c p' \<longrightarrow> n \<le> m)"
    using D(3) by (meson list.set_intros(2))
  have newent: "\<And>c p n. (c, p, n) \<in> set news \<Longrightarrow>
        reach ok seeds b n c p \<and> (n = k \<or> n = Suc k) \<and> n \<le> M \<and>
        (\<forall>m p'. reach ok seeds b m c p' \<longrightarrow> n \<le> m)"
  proof -
    fix c p n assume m: "(c, p, n) \<in> set news"
    with news obtain d where d: "c = step c0 d" "ok c" "c \<notin> V" "p = p0" "n = Suc k" by blast
    have "reach ok seeds b (Suc k) (step c0 d) p0" using r0 d by (auto intro: reach_step)
    moreover have "\<And>m p'. reach ok seeds b m c p' \<Longrightarrow> Suc k \<le> m"
      using lev d(3) by (meson not_less_eq_eq)
    ultimately show "reach ok seeds b n c p \<and> (n = k \<or> n = Suc k) \<and> n \<le> M \<and>
        (\<forall>m p'. reach ok seeds b m c p' \<longrightarrow> n \<le> m)"
      using d cap by auto
  qed
  have srt: "sorted (map (\<lambda>e. snd (snd e)) (rest @ news))"
  proof -
    have "sorted (map (\<lambda>e. snd (snd e)) rest)" using D(4) by simp
    moreover have "map (\<lambda>e. snd (snd e)) news = replicate (length news) (Suc k)"
      using news by (intro replicate_eqI) auto
    moreover have "\<forall>x\<in>set (map (\<lambda>e. snd (snd e)) rest). x \<le> Suc k"
      using ent by fastforce
    ultimately show ?thesis by (auto simp: sorted_append)
  qed
  have fr: "\<forall>c p d. reach ok seeds b k c p \<longrightarrow> ok (step c d) \<longrightarrow>
                     (\<forall>p'. (c, p', k) \<notin> set (rest @ news)) \<longrightarrow>
                     step c d \<in> V \<union> fst ` set news"
  proof (intro allI impI)
    fix c p d
    assume r: "reach ok seeds b k c p" and o: "ok (step c d)"
      and nq: "\<forall>p'. (c, p', k) \<notin> set (rest @ news)"
    show "step c d \<in> V \<union> fst ` set news"
    proof (cases "c = c0")
      case True
      then show ?thesis using cov o by simp
    next
      case False
      then have "\<forall>p'. (c, p', k) \<notin> set ((c0, p0, k) # rest)" using nq by simp
      then have "step c d \<in> V" using D(6)[OF cap r o] by blast
      then show ?thesis by simp
    qed
  qed
  have proc: "\<forall>c\<in>V \<union> fst ` set news. (\<exists>p n. (c, p, n) \<in> set (rest @ news)) \<or>
             (P c \<and> (\<exists>n p. n \<le> k \<and> reach ok seeds b n c p))"
  proof
    fix c assume "c \<in> V \<union> fst ` set news"
    then consider "c \<in> fst ` set news" | "c \<in> V" by blast
    then show "(\<exists>p n. (c, p, n) \<in> set (rest @ news)) \<or>
             (P c \<and> (\<exists>n p. n \<le> k \<and> reach ok seeds b n c p))"
    proof cases
      case 1
      then show ?thesis by force
    next
      case 2
      then consider "\<exists>p n. (c, p, n) \<in> set ((c0, p0, k) # rest)"
        | "P c \<and> (\<exists>n p. n \<le> k \<and> reach ok seeds b n c p)" using D(7) by blast
      then show ?thesis
      proof cases
        case 1
        then show ?thesis using P r0 by auto
      next
        case 2
        then show ?thesis by blast
      qed
    qed
  qed
  have ent': "\<forall>c p n. (c, p, n) \<in> set (rest @ news) \<longrightarrow>
        reach ok seeds b n c p \<and> (n = k \<or> n = Suc k) \<and> n \<le> M \<and>
        (\<forall>m p'. reach ok seeds b m c p' \<longrightarrow> n \<le> m)"
    using ent newent by (metis Un_iff set_append)
  have lev': "\<forall>n c p. n \<le> k \<longrightarrow> reach ok seeds b n c p \<longrightarrow> c \<in> V \<union> fst ` set news"
    using lev by blast
  show ?thesis
    unfolding level_inv_def
    using D(1,2) ent' srt lev' fr proc by (intro conjI) (blast | linarith)+
qed

lemma level_inv_final:
  assumes inv: "level_inv ok seeds b M P [] V k"
  shows "\<forall>n c p. n \<le> M \<longrightarrow> reach ok seeds b n c p \<longrightarrow> c \<in> V"
    and "\<forall>c\<in>V. P c \<and> (\<exists>n p. n \<le> M \<and> reach ok seeds b n c p)"
proof -
  note D = level_invD[OF inv]
  have lev: "\<And>n c p. n \<le> k \<Longrightarrow> reach ok seeds b n c p \<Longrightarrow> c \<in> V" using D(5) by blast
  have proc: "\<And>c. c \<in> V \<Longrightarrow> P c \<and> (\<exists>n p. n \<le> k \<and> reach ok seeds b n c p)"
    using D(7) by simp
  have kM: "k \<le> M" using D(2) .
  show "\<forall>c\<in>V. P c \<and> (\<exists>n p. n \<le> M \<and> reach ok seeds b n c p)"
    using proc kM by (meson le_trans)
  show "\<forall>n c p. n \<le> M \<longrightarrow> reach ok seeds b n c p \<longrightarrow> c \<in> V"
  proof (cases "k < M")
    case False
    then have "k = M" using kM by simp
    then show ?thesis using lev by blast
  next
    case True
    have fr: "\<And>c p d. reach ok seeds b k c p \<Longrightarrow> ok (step c d) \<Longrightarrow> step c d \<in> V"
      using D(6)[OF True] by simp
    have "reach ok seeds b n c p \<Longrightarrow> c \<in> V" for n c p
    proof (induction rule: reach.induct)
      case (reach_seed c p)
      then show ?case using lev[of b c p] D(1) by (auto intro: reach.reach_seed)
    next
      case (reach_step n c p d)
      from proc[OF reach_step.IH] obtain m p' where m: "m \<le> k" "reach ok seeds b m c p'"
        by blast
      show ?case
      proof (cases "m = k")
        case True
        then show ?thesis using fr m reach_step.hyps(2) by blast
      next
        case False
        then have "Suc m \<le> k" using m by simp
        moreover have "reach ok seeds b (Suc m) (step c d) p'"
          using m reach_step.hyps(2) by (auto intro: reach.reach_step)
        ultimately show ?thesis using lev by blast
      qed
    qed
    then show ?thesis by blast
  qed
qed

lemma level_inv_front:
  assumes inv: "level_inv ok seeds b M P ((c0, p0, n0) # rest) V k"
  shows "level_inv ok seeds b M P ((c0, p0, n0) # rest) V n0"
proof -
  have "n0 = k \<or> n0 = Suc k" using level_invD(3)[OF inv, of c0 p0 n0] by simp
  then show ?thesis using inv level_inv_shift[of ok seeds b M P c0 p0 k rest V] by auto
qed



text \<open>
  The obstacle model of the path search: a cell is free when
  \<open>_is_potential_move_colliding\<close> rejects it neither for the walls nor for a body
  segment of index 1 and above.
\<close>

definition free :: "game \<Rightarrow> cell \<Rightarrow> bool" where
  "free g c \<longleftrightarrow> \<not> is_potential_move_colliding g c"

fun entry3 :: "bfs_entry \<Rightarrow> cell \<times> direction \<times> nat" where
  "entry3 (x, y, fd, n) = ((x, y), fd, n)"

lemma bfs_neighbours_result:
  "\<exists>news. bfs_neighbours g x y fd depth ds (q, V) = (q @ news, V \<union> fst ` set (map entry3 news)) \<and>
     (\<forall>c p n. (c, p, n) \<in> set (map entry3 news) \<longrightarrow>
        (\<exists>d. c = step (x, y) d) \<and> free g c \<and> c \<notin> V \<and> p = fd \<and> n = Suc depth) \<and>
     (\<forall>d\<in>set ds. free g (step (x, y) d) \<longrightarrow> step (x, y) d \<in> V \<union> fst ` set (map entry3 news))"
proof (induction ds arbitrary: q V)
  case Nil
  show ?case by (rule exI[of _ "[]"]) simp
next
  case (Cons d ds)
  let ?n = "step (x, y) d"
  show ?case
  proof (cases "?n \<in> V \<or> \<not> free g ?n")
    case True
    from Cons.IH[of q V] obtain news where
      n: "bfs_neighbours g x y fd depth ds (q, V) = (q @ news, V \<union> fst ` set (map entry3 news))"
      "\<forall>c p n. (c, p, n) \<in> set (map entry3 news) \<longrightarrow>
        (\<exists>d. c = step (x, y) d) \<and> free g c \<and> c \<notin> V \<and> p = fd \<and> n = Suc depth"
      "\<forall>d\<in>set ds. free g (step (x, y) d) \<longrightarrow> step (x, y) d \<in> V \<union> fst ` set (map entry3 news)"
      by blast
    have "bfs_neighbours g x y fd depth (d # ds) (q, V) = bfs_neighbours g x y fd depth ds (q, V)"
      using True by (auto simp: Let_def free_def is_potential_move_colliding_def)
    then show ?thesis using n True by (intro exI[of _ news]) auto
  next
    case False
    let ?e = "(fst ?n, snd ?n, fd, depth + 1)"
    from Cons.IH[of "q @ [?e]" "insert ?n V"] obtain news where
      n: "bfs_neighbours g x y fd depth ds (q @ [?e], insert ?n V) =
            ((q @ [?e]) @ news, insert ?n V \<union> fst ` set (map entry3 news))"
      "\<forall>c p n. (c, p, n) \<in> set (map entry3 news) \<longrightarrow>
        (\<exists>d. c = step (x, y) d) \<and> free g c \<and> c \<notin> insert ?n V \<and> p = fd \<and> n = Suc depth"
      "\<forall>d\<in>set ds. free g (step (x, y) d) \<longrightarrow>
         step (x, y) d \<in> insert ?n V \<union> fst ` set (map entry3 news)"
      by blast
    have "bfs_neighbours g x y fd depth (d # ds) (q, V) =
            bfs_neighbours g x y fd depth ds (q @ [?e], insert ?n V)"
      using False by (auto simp: Let_def free_def is_potential_move_colliding_def)
    then have 1: "bfs_neighbours g x y fd depth (d # ds) (q, V) =
        (q @ (?e # news), V \<union> fst ` set (map entry3 (?e # news)))"
      using n(1) by simp
    have 2: "\<forall>c p n. (c, p, n) \<in> set (map entry3 (?e # news)) \<longrightarrow>
        (\<exists>d. c = step (x, y) d) \<and> free g c \<and> c \<notin> V \<and> p = fd \<and> n = Suc depth"
      using n(2) False by auto
    have 3: "\<forall>d'\<in>set (d # ds). free g (step (x, y) d') \<longrightarrow>
        step (x, y) d' \<in> V \<union> fst ` set (map entry3 (?e # news))"
      using n(3) by auto
    show ?thesis using 1 2 3 by blast
  qed
qed

lemma all_directions: "d \<in> set directions"
  by (cases d) (simp_all add: directions_def)

lemma bfs_loop_correct:
  assumes "level_inv (free g) seeds 1 bfs_max_depth (\<lambda>c. c \<noteq> (tx, ty)) (map entry3 q) V k"
  shows "(\<forall>fd. bfs_loop g tx ty q V = Some fd \<longrightarrow>
            (\<exists>n\<le>bfs_max_depth. reach (free g) seeds 1 n (tx, ty) fd \<and>
               (\<forall>m p. reach (free g) seeds 1 m (tx, ty) p \<longrightarrow> n \<le> m))) \<and>
         (bfs_loop g tx ty q V = None \<longrightarrow>
            (\<forall>n\<le>bfs_max_depth. \<forall>p. \<not> reach (free g) seeds 1 n (tx, ty) p))"
  using assms
proof (induction g tx ty q V arbitrary: k rule: bfs_loop.induct)
  case (1 g tx ty V)
  then have inv: "level_inv (free g) seeds 1 bfs_max_depth (\<lambda>c. c \<noteq> (tx, ty)) [] V k" by simp
  from level_inv_final[OF inv] show ?case by auto
next
  case (2 g tx ty cx cy fd depth queue V)
  let ?P = "\<lambda>c. c \<noteq> (tx, ty)"
  have inv0: "level_inv (free g) seeds 1 bfs_max_depth ?P
                (((cx, cy), fd, depth) # map entry3 queue) V k"
    using "2.prems" by simp
  have inv: "level_inv (free g) seeds 1 bfs_max_depth ?P
                (((cx, cy), fd, depth) # map entry3 queue) V depth"
    by (rule level_inv_front[OF inv0])
  show ?case
  proof (cases "cx = tx \<and> cy = ty")
    case True
    have "reach (free g) seeds 1 depth (cx, cy) fd \<and> depth \<le> bfs_max_depth \<and>
        (\<forall>m p'. reach (free g) seeds 1 m (cx, cy) p' \<longrightarrow> depth \<le> m)"
      using level_invD(3)[OF inv, of "(cx, cy)" fd depth] by simp
    moreover have "bfs_loop g tx ty ((cx, cy, fd, depth) # queue) V = Some fd"
      using True by simp
    ultimately show ?thesis using True by auto
  next
    case nt: False
    then have P: "?P (cx, cy)" by auto
    show ?thesis
    proof (cases "bfs_max_depth \<le> depth")
      case True
      have invq: "level_inv (free g) seeds 1 bfs_max_depth ?P (map entry3 queue) V depth"
        by (rule level_inv_pop_cap[OF inv P True])
      have eq: "bfs_loop g tx ty ((cx, cy, fd, depth) # queue) V = bfs_loop g tx ty queue V"
        using nt True by auto
      show ?thesis unfolding eq by (rule "2.IH"(1)[OF nt True invq])
    next
      case False
      then have lt: "depth < bfs_max_depth" by simp
      obtain news where
        n: "bfs_neighbours g cx cy fd depth directions (queue, V) =
              (queue @ news, V \<union> fst ` set (map entry3 news))"
        "\<forall>c p n. (c, p, n) \<in> set (map entry3 news) \<longrightarrow>
          (\<exists>d. c = step (cx, cy) d) \<and> free g c \<and> c \<notin> V \<and> p = fd \<and> n = Suc depth"
        "\<forall>d\<in>set directions. free g (step (cx, cy) d) \<longrightarrow>
          step (cx, cy) d \<in> V \<union> fst ` set (map entry3 news)"
        using bfs_neighbours_result[of g cx cy fd depth directions queue V] by blast
      have cov: "\<forall>d. free g (step (cx, cy) d) \<longrightarrow>
          step (cx, cy) d \<in> V \<union> fst ` set (map entry3 news)"
        using n(3) all_directions by blast
      have "level_inv (free g) seeds 1 bfs_max_depth ?P
              (map entry3 queue @ map entry3 news) (V \<union> fst ` set (map entry3 news)) depth"
        by (rule level_inv_pop_expand[OF inv P lt n(2) cov])
      then have inv': "level_inv (free g) seeds 1 bfs_max_depth ?P
              (map entry3 (queue @ news)) (V \<union> fst ` set (map entry3 news)) depth"
        by simp
      have eq: "bfs_loop g tx ty ((cx, cy, fd, depth) # queue) V =
          bfs_loop g tx ty (queue @ news) (V \<union> fst ` set (map entry3 news))"
        using nt False n(1) by auto
      show ?thesis unfolding eq by (rule "2.IH"(2)[OF nt False n(1)[symmetric] inv'])
    qed
  qed
qed


text \<open>
  Paths as the specification speaks of them: a list of directions walked from a start
  cell, each step into a free cell.
\<close>

fun follow :: "cell \<Rightarrow> direction list \<Rightarrow> cell" where
  "follow c [] = c"
| "follow c (d # ds) = follow (step c d) ds"

fun free_route :: "game \<Rightarrow> cell \<Rightarrow> direction list \<Rightarrow> bool" where
  "free_route g c [] = True"
| "free_route g c (d # ds) = (free g (step c d) \<and> free_route g (step c d) ds)"

definition route :: "game \<Rightarrow> cell \<Rightarrow> direction list \<Rightarrow> cell \<Rightarrow> bool" where
  "route g s ds t \<longleftrightarrow> free_route g s ds \<and> follow s ds = t"

definition snake_head :: "game \<Rightarrow> cell" where
  "snake_head g = (snake_x (game_snake g) ! 0, snake_y (game_snake g) ! 0)"

lemma follow_snoc: "follow c (ds @ [d]) = step (follow c ds) d"
  by (induction ds arbitrary: c) auto

lemma free_route_snoc:
  "free_route g c (ds @ [d]) \<longleftrightarrow> free_route g c ds \<and> free g (step (follow c ds) d)"
  by (induction ds arbitrary: c) auto

lemma reach_route:
  assumes "reach (free g) (set (map (\<lambda>d. (step s d, d)) valid)) 1 n c fd"
    and "\<forall>d\<in>set valid. free g (step s d)"
  shows "\<exists>ds. Suc (length ds) = n \<and> fd \<in> set valid \<and> route g s (fd # ds) c"
  using assms
proof (induction rule: reach.induct)
  case (reach_seed c p)
  then have "p \<in> set valid" "c = step s p" by auto
  then show ?case using reach_seed.prems by (intro exI[of _ "[]"]) (auto simp: route_def)
next
  case (reach_step n c p d)
  then obtain ds where ds: "Suc (length ds) = n" "p \<in> set valid" "route g s (p # ds) c"
    by blast
  have "route g s (p # (ds @ [d])) (step c d)"
    using ds(3) reach_step.hyps(2) free_route_snoc[of g s "p # ds" d] follow_snoc[of s "p # ds" d]
    by (simp add: route_def)
  then show ?case using ds by (intro exI[of _ "ds @ [d]"]) auto
qed

lemma route_reach:
  "fd \<in> set valid \<Longrightarrow> route g s (fd # ds) c \<Longrightarrow>
   reach (free g) (set (map (\<lambda>d. (step s d, d)) valid)) 1 (Suc (length ds)) c fd"
proof (induction ds arbitrary: c rule: rev_induct)
  case Nil
  then have "c = step s fd" by (simp add: route_def)
  then show ?case using Nil.prems(1) reach_seed[of c fd "set (map (\<lambda>d. (step s d, d)) valid)" "free g" 1]
    by auto
next
  case (snoc d ds)
  let ?c = "follow s (fd # ds)"
  have r: "route g s (fd # ds) ?c" "free g (step ?c d)" "c = step ?c d"
    using snoc.prems(2) free_route_snoc[of g s "fd # ds" d] follow_snoc[of s "fd # ds" d]
    by (auto simp: route_def)
  from snoc.IH[OF snoc.prems(1) r(1)] r(2,3) show ?case
    using reach_step by fastforce
qed

lemma set_valid_directions:
  "set (valid_directions g) =
     {d. d \<noteq> opposite (snake_direction (game_snake g)) \<and> free g (step (snake_head g) d)}"
  using all_directions
  by (auto simp: valid_directions_def is_u_turn_opposite free_def snake_head_def)

lemma bfs_pathfind_correct:
  fixes g :: game
  defines "S \<equiv> set (map (\<lambda>d. (step (snake_head g) d, d)) (valid_directions g))"
  shows "(\<forall>fd. bfs_pathfind g (fst (snake_head g)) (snd (snake_head g)) tx ty (valid_directions g) = Some fd \<longrightarrow>
            (\<exists>n\<le>bfs_max_depth. reach (free g) S 1 n (tx, ty) fd \<and>
               (\<forall>m p. reach (free g) S 1 m (tx, ty) p \<longrightarrow> n \<le> m))) \<and>
         (bfs_pathfind g (fst (snake_head g)) (snd (snake_head g)) tx ty (valid_directions g) = None \<longrightarrow>
            (\<forall>n\<le>bfs_max_depth. \<forall>p. \<not> reach (free g) S 1 n (tx, ty) p))"
proof -
  let ?sl = "map (\<lambda>d. (step (snake_head g) d, d)) (valid_directions g)"
  let ?q = "map (\<lambda>d. (fst (step (snake_head g) d), snd (step (snake_head g) d), d, 1::nat))
              (valid_directions g)"
  have q: "map entry3 ?q = map (\<lambda>(c, p). (c, p, 1)) ?sl" by simp
  have v: "set (map (step (snake_head g)) (valid_directions g)) = fst ` set ?sl" by force
  have "level_inv (free g) (set ?sl) 1 bfs_max_depth (\<lambda>c. c \<noteq> (tx, ty))
          (map (\<lambda>(c, p). (c, p, 1)) ?sl) (fst ` set ?sl) 1"
    by (rule level_inv_init) (simp add: bfs_max_depth_def)
  then have "level_inv (free g) S 1 bfs_max_depth (\<lambda>c. c \<noteq> (tx, ty))
          (map entry3 ?q) (set (map (step (snake_head g)) (valid_directions g))) 1"
    unfolding q v S_def .
  from bfs_loop_correct[OF this] show ?thesis
    unfolding bfs_pathfind_def by simp
qed

lemma bfs_shortest:
  assumes r0: "route g (snake_head g) (d0 # ds0) (apple_x g, apple_y g)"
    and d0: "d0 \<noteq> opposite (snake_direction (game_snake g))"
    and len: "length (d0 # ds0) \<le> 15"
  shows "\<exists>fd ds.
      bfs_pathfind g (fst (snake_head g)) (snd (snake_head g)) (apple_x g) (apple_y g)
        (valid_directions g) = Some fd \<and>
      fd \<noteq> opposite (snake_direction (game_snake g)) \<and>
      route g (snake_head g) (fd # ds) (apple_x g, apple_y g) \<and>
      (\<forall>d' ds'. d' \<noteq> opposite (snake_direction (game_snake g)) \<longrightarrow>
          route g (snake_head g) (d' # ds') (apple_x g, apple_y g) \<longrightarrow>
          length (fd # ds) \<le> length (d' # ds')) \<and>
      smart_agent_bfs g = turn fd (game_snake g)"
proof -
  let ?S = "set (map (\<lambda>d. (step (snake_head g) d, d)) (valid_directions g))"
  let ?t = "(apple_x g, apple_y g)"
  let ?res = "bfs_pathfind g (fst (snake_head g)) (snd (snake_head g)) (apple_x g) (apple_y g)
        (valid_directions g)"
  have vfree: "\<forall>d\<in>set (valid_directions g). free g (step (snake_head g) d)"
    by (simp add: set_valid_directions)
  have inval: "\<And>d ds. d \<noteq> opposite (snake_direction (game_snake g)) \<Longrightarrow>
      route g (snake_head g) (d # ds) ?t \<Longrightarrow> d \<in> set (valid_directions g)"
    by (simp add: set_valid_directions route_def)
  have d0v: "d0 \<in> set (valid_directions g)" using inval[OF d0 r0] .
  have "reach (free g) ?S 1 (Suc (length ds0)) ?t d0" by (rule route_reach[OF d0v r0])
  moreover have "Suc (length ds0) \<le> bfs_max_depth" using len by (simp add: bfs_max_depth_def)
  ultimately have "?res \<noteq> None" using bfs_pathfind_correct[of g "apple_x g" "apple_y g"] by blast
  then obtain fd where fd: "?res = Some fd" by blast
  with bfs_pathfind_correct[of g "apple_x g" "apple_y g"] obtain n where
    n: "reach (free g) ?S 1 n ?t fd" "\<forall>m p. reach (free g) ?S 1 m ?t p \<longrightarrow> n \<le> m"
    by blast
  from reach_route[OF n(1) vfree] obtain ds where
    ds: "Suc (length ds) = n" "fd \<in> set (valid_directions g)" "route g (snake_head g) (fd # ds) ?t"
    by blast
  have fdv: "fd \<noteq> opposite (snake_direction (game_snake g))"
    using ds(2) by (simp add: set_valid_directions)
  have mn: "\<forall>d' ds'. d' \<noteq> opposite (snake_direction (game_snake g)) \<longrightarrow>
          route g (snake_head g) (d' # ds') ?t \<longrightarrow> length (fd # ds) \<le> length (d' # ds')"
  proof (intro allI impI)
    fix d' ds'
    assume a: "d' \<noteq> opposite (snake_direction (game_snake g))"
      "route g (snake_head g) (d' # ds') ?t"
    have "reach (free g) ?S 1 (Suc (length ds')) ?t d'"
      by (rule route_reach[OF inval[OF a] a(2)])
    then show "length (fd # ds) \<le> length (d' # ds')" using n(2) ds(1) by auto
  qed
  have "valid_directions g \<noteq> []" using d0v by auto
  then have "smart_agent_bfs g = turn fd (game_snake g)"
    using fd by (simp add: smart_agent_bfs_def Let_def snake_head_def)
  then show ?thesis using fd fdv ds(3) mn by blast
qed

lemma route_Nil_or: "route g s ds t \<Longrightarrow> ds = [] \<or> (\<exists>d ds'. ds = d # ds')"
  by (cases ds) auto

lemma bfs_none:
  assumes nr: "\<forall>ds. \<not> route g (snake_head g) ds (apple_x g, apple_y g)"
  shows "bfs_pathfind g (fst (snake_head g)) (snd (snake_head g)) (apple_x g) (apple_y g)
        (valid_directions g) = None \<and>
      smart_agent_bfs g = safety_first_agent g (valid_directions g)"
proof -
  let ?S = "set (map (\<lambda>d. (step (snake_head g) d, d)) (valid_directions g))"
  let ?t = "(apple_x g, apple_y g)"
  let ?res = "bfs_pathfind g (fst (snake_head g)) (snd (snake_head g)) (apple_x g) (apple_y g)
        (valid_directions g)"
  have vfree: "\<forall>d\<in>set (valid_directions g). free g (step (snake_head g) d)"
    by (simp add: set_valid_directions)
  have none: "?res = None"
  proof (rule ccontr)
    assume "?res \<noteq> None"
    then obtain fd where "?res = Some fd" by blast
    with bfs_pathfind_correct[of g "apple_x g" "apple_y g"] obtain n where
      "reach (free g) ?S 1 n ?t fd" by blast
    from reach_route[OF this vfree] nr show False by blast
  qed
  have "smart_agent_bfs g = safety_first_agent g (valid_directions g)"
  proof (cases "valid_directions g = []")
    case True
    then show ?thesis by (simp add: smart_agent_bfs_def safety_first_agent_def Let_def)
  next
    case False
    then show ?thesis using none by (simp add: smart_agent_bfs_def Let_def snake_head_def)
  qed
  then show ?thesis using none by simp
qed

lemma route_closed:
  "s \<in> A \<Longrightarrow> (\<forall>c\<in>A. \<forall>d. free g (step c d) \<longrightarrow> step c d \<in> A) \<Longrightarrow>
   free_route g s ds \<Longrightarrow> follow s ds \<in> A"
  by (induction ds arbitrary: s) auto

text \<open>
  C1, as stated, fails. The search is seeded with the valid directions only, and the
  reversal of the current direction is never valid. At the start of a round (one
  segment at (40, 40), heading down) with the goal straight above, the shortest
  collision-free path is the single step up; the search returns left, which reaches the
  goal in three steps and in no fewer.
\<close>

theorem bfs_reversal_counterexample:
  "route \<lparr>screen_width = 1000, screen_height = 800, game_snake = snake_init,
          apple_x = 40, apple_y = 0\<rparr> (40, 40) [Up] (40, 0) \<and>
   bfs_pathfind \<lparr>screen_width = 1000, screen_height = 800, game_snake = snake_init,
          apple_x = 40, apple_y = 0\<rparr> 40 40 40 0
      (valid_directions \<lparr>screen_width = 1000, screen_height = 800, game_snake = snake_init,
          apple_x = 40, apple_y = 0\<rparr>) = Some Left \<and>
   \<not> route \<lparr>screen_width = 1000, screen_height = 800, game_snake = snake_init,
          apple_x = 40, apple_y = 0\<rparr> (40, 40) [Left] (40, 0)"
  by (simp add: route_def free_def is_potential_move_colliding_def in_bounds_def body_hit_def
        step_def SIZE_def snake_init_def bfs_pathfind_def valid_directions_def directions_def
        is_u_turn_def bfs_max_depth_def Let_def)

text \<open>
  C1, amended. If some collision-free path of at most 15 steps leads from the head to
  the goal and does not begin with the reversal of the snake's direction, then
  \<open>_bfs_pathfind\<close> returns a direction; that direction is not the reversal, it begins a
  collision-free path to the goal, and no collision-free path to the goal that does not
  begin with the reversal is shorter. \<open>smart_agent_bfs\<close> then requests this direction.
\<close>

theorem bfs_shortest_path:
  assumes "consistent (game_snake g)" and "0 < snake_length (game_snake g)"
    and "route g (snake_head g) (d0 # ds0) (apple_x g, apple_y g)"
    and "d0 \<noteq> opposite (snake_direction (game_snake g))"
    and "length (d0 # ds0) \<le> 15"
  shows "\<exists>fd ds.
      bfs_pathfind g (fst (snake_head g)) (snd (snake_head g)) (apple_x g) (apple_y g)
        (valid_directions g) = Some fd \<and>
      fd \<noteq> opposite (snake_direction (game_snake g)) \<and>
      route g (snake_head g) (fd # ds) (apple_x g, apple_y g) \<and>
      (\<forall>d' ds'. d' \<noteq> opposite (snake_direction (game_snake g)) \<longrightarrow>
          route g (snake_head g) (d' # ds') (apple_x g, apple_y g) \<longrightarrow>
          length (fd # ds) \<le> length (d' # ds')) \<and>
      smart_agent_bfs g = turn fd (game_snake g)"
  using assms(3-5) by (rule bfs_shortest)

theorem bfs_shortest_path_witness:
  "route \<lparr>screen_width = 1000, screen_height = 800, game_snake = snake_init,
          apple_x = 160, apple_y = 40\<rparr> (40, 40) [Right, Right, Right] (160, 40) \<and>
   (\<exists>fd ds. bfs_pathfind \<lparr>screen_width = 1000, screen_height = 800, game_snake = snake_init,
          apple_x = 160, apple_y = 40\<rparr> 40 40 160 40
      (valid_directions \<lparr>screen_width = 1000, screen_height = 800, game_snake = snake_init,
          apple_x = 160, apple_y = 40\<rparr>) = Some fd \<and>
      route \<lparr>screen_width = 1000, screen_height = 800, game_snake = snake_init,
          apple_x = 160, apple_y = 40\<rparr> (40, 40) (fd # ds) (160, 40) \<and>
      length (fd # ds) \<le> 3)"
proof -
  let ?g = "\<lparr>screen_width = 1000, screen_height = 800, game_snake = snake_init,
          apple_x = 160, apple_y = 40\<rparr>"
  have hd: "snake_head ?g = (40, 40)" by (simp add: snake_head_def snake_init_def)
  have c: "consistent (game_snake ?g)" "0 < snake_length (game_snake ?g)"
    by (simp_all add: consistent_def snake_init_def)
  have r: "route ?g (snake_head ?g) (Right # [Right, Right]) (apple_x ?g, apple_y ?g)"
    unfolding hd
    by (simp add: route_def free_def is_potential_move_colliding_def in_bounds_def body_hit_def
          step_def SIZE_def snake_init_def)
  have d: "Right \<noteq> opposite (snake_direction (game_snake ?g))" by (simp add: snake_init_def)
  have l: "length (Right # [Right, Right]) \<le> 15" by simp
  from bfs_shortest_path[OF c r d l] obtain fd ds where
    f: "bfs_pathfind ?g (fst (snake_head ?g)) (snd (snake_head ?g)) (apple_x ?g) (apple_y ?g)
        (valid_directions ?g) = Some fd"
    "route ?g (snake_head ?g) (fd # ds) (apple_x ?g, apple_y ?g)"
    "\<forall>d' ds'. d' \<noteq> opposite (snake_direction (game_snake ?g)) \<longrightarrow>
          route ?g (snake_head ?g) (d' # ds') (apple_x ?g, apple_y ?g) \<longrightarrow>
          length (fd # ds) \<le> length (d' # ds')"
    by blast
  from f(3) d r have "length (fd # ds) \<le> 3" by fastforce
  then show ?thesis using f(1,2) r unfolding hd by auto
qed

text \<open>
  C7. If no collision-free path of any length leads from the head to the goal, then
  \<open>_bfs_pathfind\<close> returns \<open>None\<close>, and \<open>smart_agent_bfs\<close> behaves as
  \<open>_safety_first_agent\<close> on the valid directions (which, like \<open>smart_agent_bfs\<close>,
  leaves the snake alone when there is none).
\<close>

theorem bfs_not_found_falls_back:
  assumes "consistent (game_snake g)" and "0 < snake_length (game_snake g)"
    and "\<forall>ds. \<not> route g (snake_head g) ds (apple_x g, apple_y g)"
  shows "bfs_pathfind g (fst (snake_head g)) (snd (snake_head g)) (apple_x g) (apple_y g)
        (valid_directions g) = None \<and>
      smart_agent_bfs g = safety_first_agent g (valid_directions g)"
  using assms(3) by (rule bfs_none)

theorem bfs_not_found_falls_back_witness:
  "valid_directions \<lparr>screen_width = 1000, screen_height = 800,
      game_snake = \<lparr>snake_direction = Up, snake_length = 5,
                     snake_x = [0, 0, 40, 40, 40], snake_y = [40, 80, 80, 40, 0]\<rparr>,
      apple_x = 120, apple_y = 120\<rparr> = [Up] \<and>
   bfs_pathfind \<lparr>screen_width = 1000, screen_height = 800,
      game_snake = \<lparr>snake_direction = Up, snake_length = 5,
                     snake_x = [0, 0, 40, 40, 40], snake_y = [40, 80, 80, 40, 0]\<rparr>,
      apple_x = 120, apple_y = 120\<rparr> 0 40 120 120 [Up] = None \<and>
   smart_agent_bfs \<lparr>screen_width = 1000, screen_height = 800,
      game_snake = \<lparr>snake_direction = Up, snake_length = 5,
                     snake_x = [0, 0, 40, 40, 40], snake_y = [40, 80, 80, 40, 0]\<rparr>,
      apple_x = 120, apple_y = 120\<rparr> =
   safety_first_agent \<lparr>screen_width = 1000, screen_height = 800,
      game_snake = \<lparr>snake_direction = Up, snake_length = 5,
                     snake_x = [0, 0, 40, 40, 40], snake_y = [40, 80, 80, 40, 0]\<rparr>,
      apple_x = 120, apple_y = 120\<rparr> [Up]"
proof -
  let ?g = "\<lparr>screen_width = 1000, screen_height = 800,
      game_snake = \<lparr>snake_direction = Up, snake_length = 5,
                     snake_x = [0, 0, 40, 40, 40], snake_y = [40, 80, 80, 40, 0]\<rparr>,
      apple_x = 120, apple_y = 120\<rparr>"
  let ?A = "{(0, 40), (0, 0)} :: cell set"
  have hd: "snake_head ?g = (0, 40)" by (simp add: snake_head_def)
  have c: "consistent (game_snake ?g)" "0 < snake_length (game_snake ?g)"
    by (simp_all add: consistent_def)
  have fr: "free ?g (step c d) \<Longrightarrow> c \<in> ?A \<Longrightarrow> step c d \<in> ?A" for c d
    by (cases d)
       (auto simp: free_def is_potential_move_colliding_def in_bounds_def body_hit_def
          is_collision_def step_def SIZE_def upt_rec)
  have nr: "\<forall>ds. \<not> route ?g (snake_head ?g) ds (apple_x ?g, apple_y ?g)"
  proof (intro allI notI)
    fix ds assume "route ?g (snake_head ?g) ds (apple_x ?g, apple_y ?g)"
    then have "free_route ?g (0, 40) ds" "follow (0, 40) ds = (120, 120)"
      unfolding hd by (simp_all add: route_def)
    moreover have "follow (0, 40) ds \<in> ?A"
      by (rule route_closed[OF _ _ calculation(1)]) (use fr in auto)
    ultimately show False by simp
  qed
  have v: "valid_directions ?g = [Up]"
    by (simp add: valid_directions_def directions_def is_u_turn_def
          is_potential_move_colliding_def in_bounds_def body_hit_def is_collision_def
          step_def SIZE_def upt_rec)
  from bfs_not_found_falls_back[OF c nr] show ?thesis
    unfolding hd v by simp
qed

section \<open>Flood fill counts shrink when obstacles are added\<close>

text \<open>
  The obstacle model of \<open>_count_available_space\<close>: a cell is entered when it lies
  inside the bounds and outside the box of every snake segment, the head included.
\<close>

definition fill_ok :: "game \<Rightarrow> cell \<Rightarrow> bool" where
  "fill_ok g c \<longleftrightarrow>
     in_bounds g c \<and>
     \<not> body_hit (game_snake g) 0 (snake_length (game_snake g)) (fst c) (snd c)"

fun entry2 :: "fill_entry \<Rightarrow> cell \<times> unit \<times> nat" where
  "entry2 (x, y, n) = ((x, y), (), n)"

lemma fill_neighbours_result:
  "\<exists>news. fill_neighbours g x y depth ds (q, V) = (q @ news, V \<union> fst ` set (map entry2 news)) \<and>
     (\<forall>c p n. (c, p, n) \<in> set (map entry2 news) \<longrightarrow>
        (\<exists>d. c = step (x, y) d) \<and> fill_ok g c \<and> c \<notin> V \<and> p = () \<and> n = Suc depth) \<and>
     (\<forall>d\<in>set ds. fill_ok g (step (x, y) d) \<longrightarrow> step (x, y) d \<in> V \<union> fst ` set (map entry2 news)) \<and>
     distinct (map (\<lambda>e. fst (entry2 e)) news)"
proof (induction ds arbitrary: q V)
  case Nil
  show ?case by (rule exI[of _ "[]"]) simp
next
  case (Cons d ds)
  let ?n = "step (x, y) d"
  show ?case
  proof (cases "?n \<in> V \<or> \<not> fill_ok g ?n")
    case True
    from Cons.IH[of q V] obtain news where
      n: "fill_neighbours g x y depth ds (q, V) = (q @ news, V \<union> fst ` set (map entry2 news))"
      "\<forall>c p n. (c, p, n) \<in> set (map entry2 news) \<longrightarrow>
        (\<exists>d. c = step (x, y) d) \<and> fill_ok g c \<and> c \<notin> V \<and> p = () \<and> n = Suc depth"
      "\<forall>d\<in>set ds. fill_ok g (step (x, y) d) \<longrightarrow> step (x, y) d \<in> V \<union> fst ` set (map entry2 news)"
      "distinct (map (\<lambda>e. fst (entry2 e)) news)"
      by blast
    have "fill_neighbours g x y depth (d # ds) (q, V) = fill_neighbours g x y depth ds (q, V)"
      using True by (auto simp: Let_def fill_ok_def)
    then show ?thesis using n True by (intro exI[of _ news]) auto
  next
    case False
    let ?e = "(fst ?n, snd ?n, depth + 1)"
    from Cons.IH[of "q @ [?e]" "insert ?n V"] obtain news where
      n: "fill_neighbours g x y depth ds (q @ [?e], insert ?n V) =
            ((q @ [?e]) @ news, insert ?n V \<union> fst ` set (map entry2 news))"
      "\<forall>c p n. (c, p, n) \<in> set (map entry2 news) \<longrightarrow>
        (\<exists>d. c = step (x, y) d) \<and> fill_ok g c \<and> c \<notin> insert ?n V \<and> p = () \<and> n = Suc depth"
      "\<forall>d\<in>set ds. fill_ok g (step (x, y) d) \<longrightarrow>
         step (x, y) d \<in> insert ?n V \<union> fst ` set (map entry2 news)"
      "distinct (map (\<lambda>e. fst (entry2 e)) news)"
      by blast
    have "fill_neighbours g x y depth (d # ds) (q, V) =
            fill_neighbours g x y depth ds (q @ [?e], insert ?n V)"
      using False by (auto simp: Let_def fill_ok_def)
    then have 1: "fill_neighbours g x y depth (d # ds) (q, V) =
        (q @ (?e # news), V \<union> fst ` set (map entry2 (?e # news)))"
      using n(1) by simp
    have 2: "\<forall>c p n. (c, p, n) \<in> set (map entry2 (?e # news)) \<longrightarrow>
        (\<exists>d. c = step (x, y) d) \<and> fill_ok g c \<and> c \<notin> V \<and> p = () \<and> n = Suc depth"
      using n(2) False by auto
    have 3: "\<forall>d'\<in>set (d # ds). fill_ok g (step (x, y) d') \<longrightarrow>
        step (x, y) d' \<in> V \<union> fst ` set (map entry2 (?e # news))"
      using n(3) by auto
    have "?n \<notin> (\<lambda>e. fst (entry2 e)) ` set news"
    proof
      assume "?n \<in> (\<lambda>e. fst (entry2 e)) ` set news"
      then obtain e where e: "e \<in> set news" "fst (entry2 e) = ?n" by auto
      obtain c p m where cpm: "entry2 e = (c, p, m)" by (cases "entry2 e")
      then have "(c, p, m) \<in> set (map entry2 news)" using e(1) by force
      then have "c \<notin> insert ?n V" using n(2) by blast
      then show False using e(2) cpm by simp
    qed
    then have 4: "distinct (map (\<lambda>e. fst (entry2 e)) (?e # news))"
      using n(4) by simp
    show ?thesis using 1 2 3 4 by blast
  qed
qed

definition fill_cells :: "fill_entry list \<Rightarrow> cell set" where
  "fill_cells q = (\<lambda>e. fst (entry2 e)) ` set q"

lemma fill_cells_simps:
  "fill_cells [] = {}"
  "fill_cells ((x, y, n) # q) = insert (x, y) (fill_cells q)"
  "fill_cells (q @ r) = fill_cells q \<union> fill_cells r"
  "fst ` set (map entry2 q) = fill_cells q"
  "set (map (\<lambda>e. fst (entry2 e)) q) = fill_cells q"
  by (simp_all add: fill_cells_def image_Un image_image)

lemma card_pop:
  assumes "finite V" "c \<in> V" "c \<notin> A" "count = card (V - insert c A)"
  shows "count + 1 = card (V - A)"
proof -
  have "V - A = insert c (V - insert c A)" using assms(2,3) by blast
  moreover have "c \<notin> V - insert c A" by blast
  moreover have "finite (V - insert c A)" using assms(1) by simp
  ultimately show ?thesis using assms(4) by (metis Suc_eq_plus1 card_insert_disjoint)
qed

lemma diff_expand: "N \<inter> V = {} \<Longrightarrow> (V \<union> N) - (A \<union> N) = V - A"
  by blast

lemma fill_loop_correct:
  assumes "level_inv (fill_ok g) seeds 0 M (\<lambda>c. True) (map entry2 q) V k"
    and "distinct (map (\<lambda>e. fst (entry2 e)) q)"
    and "fill_cells q \<subseteq> V" and "finite V"
    and "count = card (V - fill_cells q)"
  shows "fill_loop g M q V count = card {c. \<exists>n\<le>M. \<exists>p. reach (fill_ok g) seeds 0 n c p}"
  using assms
proof (induction g M q V count arbitrary: k rule: fill_loop.induct)
  case (1 g M V count)
  then have inv: "level_inv (fill_ok g) seeds 0 M (\<lambda>c. True) [] V k" by simp
  note F = level_inv_final[OF inv]
  have "V = {c. \<exists>n\<le>M. \<exists>p. reach (fill_ok g) seeds 0 n c p}"
  proof (intro set_eqI iffI)
    fix c assume "c \<in> V"
    with F(2) have "\<exists>n p. n \<le> M \<and> reach (fill_ok g) seeds 0 n c p" by blast
    then show "c \<in> {c. \<exists>n\<le>M. \<exists>p. reach (fill_ok g) seeds 0 n c p}" by blast
  next
    fix c assume "c \<in> {c. \<exists>n\<le>M. \<exists>p. reach (fill_ok g) seeds 0 n c p}"
    then obtain n p where "n \<le> M" "reach (fill_ok g) seeds 0 n c p" by blast
    with F(1) show "c \<in> V" by blast
  qed
  moreover have "count = card V" using "1.prems"(5) by (simp add: fill_cells_simps)
  ultimately show ?case by simp
next
  case (2 g M x y depth queue V count)
  have inv0: "level_inv (fill_ok g) seeds 0 M (\<lambda>c. True)
                (((x, y), (), depth) # map entry2 queue) V k"
    using "2.prems"(1) by simp
  have inv: "level_inv (fill_ok g) seeds 0 M (\<lambda>c. True)
                (((x, y), (), depth) # map entry2 queue) V depth"
    by (rule level_inv_front[OF inv0])
  have dq: "distinct (map (\<lambda>e. fst (entry2 e)) queue)" "(x, y) \<notin> fill_cells queue"
    using "2.prems"(2) by (simp_all add: fill_cells_def)
  have sub: "fill_cells queue \<subseteq> V" "(x, y) \<in> V"
    using "2.prems"(3) by (simp_all add: fill_cells_simps)
  have fin: "finite V" by fact
  have "count = card (V - insert (x, y) (fill_cells queue))"
    using "2.prems"(5) by (simp only: fill_cells_simps)
  then have cnt: "count + 1 = card (V - fill_cells queue)"
    by (rule card_pop[OF fin sub(2) dq(2)])
  show ?case
  proof (cases "M \<le> depth")
    case True
    have invq: "level_inv (fill_ok g) seeds 0 M (\<lambda>c. True) (map entry2 queue) V depth"
      by (rule level_inv_pop_cap[OF inv TrueI True])
    have eq: "fill_loop g M ((x, y, depth) # queue) V count = fill_loop g M queue V (count + 1)"
      using True by (simp only: fill_loop.simps if_True)
    show ?thesis unfolding eq by (rule "2.IH"(1)[OF True invq dq(1) sub(1) fin cnt])
  next
    case False
    then have lt: "depth < M" by simp
    obtain news where
      n: "fill_neighbours g x y depth directions (queue, V) =
            (queue @ news, V \<union> fst ` set (map entry2 news))"
      "\<forall>c p n. (c, p, n) \<in> set (map entry2 news) \<longrightarrow>
        (\<exists>d. c = step (x, y) d) \<and> fill_ok g c \<and> c \<notin> V \<and> p = () \<and> n = Suc depth"
      "\<forall>d\<in>set directions. fill_ok g (step (x, y) d) \<longrightarrow>
        step (x, y) d \<in> V \<union> fst ` set (map entry2 news)"
      "distinct (map (\<lambda>e. fst (entry2 e)) news)"
      using fill_neighbours_result[of g x y depth directions queue V] by blast
    have cov: "\<forall>d. fill_ok g (step (x, y) d) \<longrightarrow>
          step (x, y) d \<in> V \<union> fst ` set (map entry2 news)"
      using n(3) all_directions by blast
    have newV: "fill_cells news \<inter> V = {}"
    proof -
      have "c \<notin> V" if "c \<in> fst ` set (map entry2 news)" for c
      proof -
        from that obtain e where e: "e \<in> set (map entry2 news)" "fst e = c" by blast
        obtain c' p m where cpm: "e = (c', p, m)" by (cases e)
        have "(c', p, m) \<in> set (map entry2 news)" using e(1) unfolding cpm .
        then have "c' \<notin> V" using n(2) by blast
        moreover have "c' = c" using e(2) cpm by simp
        ultimately show ?thesis by simp
      qed
      then show ?thesis unfolding fill_cells_simps(4) by blast
    qed
    have "level_inv (fill_ok g) seeds 0 M (\<lambda>c. True)
              (map entry2 queue @ map entry2 news) (V \<union> fst ` set (map entry2 news)) depth"
      by (rule level_inv_pop_expand[OF inv TrueI lt n(2) cov])
    then have inv': "level_inv (fill_ok g) seeds 0 M (\<lambda>c. True)
              (map entry2 (queue @ news)) (V \<union> fill_cells news) depth"
      by (simp only: map_append fill_cells_simps)
    have d': "distinct (map (\<lambda>e. fst (entry2 e)) (queue @ news))"
    proof -
      have "fill_cells queue \<inter> fill_cells news = {}" using newV sub(1) by blast
      then have "set (map (\<lambda>e. fst (entry2 e)) queue) \<inter> set (map (\<lambda>e. fst (entry2 e)) news) = {}"
        by (simp only: fill_cells_simps)
      then show ?thesis using dq(1) n(4) by (simp only: map_append distinct_append simp_thms)
    qed
    have s': "fill_cells (queue @ news) \<subseteq> V \<union> fill_cells news"
      using sub(1) unfolding fill_cells_simps by blast
    have f': "finite (V \<union> fill_cells news)"
      using fin by (simp add: fill_cells_def)
    have "(V \<union> fill_cells news) - fill_cells (queue @ news) = V - fill_cells queue"
      unfolding fill_cells_simps using diff_expand[of "fill_cells news" V "fill_cells queue"] newV
      by simp
    then have c': "count + 1 = card ((V \<union> fill_cells news) - fill_cells (queue @ news))"
      using cnt by simp
    have n1: "(queue @ news, V \<union> fill_cells news) =
        fill_neighbours g x y depth directions (queue, V)"
      using n(1) by (simp only: fill_cells_simps)
    have eq: "fill_loop g M ((x, y, depth) # queue) V count =
        fill_loop g M (queue @ news) (V \<union> fill_cells news) (count + 1)"
      using False n1[symmetric] by (simp only: fill_loop.simps if_False prod.case)
    show ?thesis unfolding eq
      by (rule "2.IH"(2)[OF False n1 inv' d' s' f' c'])
  qed
qed

lemma reach_mono:
  assumes "reach ok' seeds b n c p" and "\<forall>c. ok' c \<longrightarrow> ok c"
  shows "reach ok seeds b n c p"
  using assms(1)
proof (induction rule: reach.induct)
  case (reach_seed c p)
  then show ?case by (rule reach.reach_seed)
next
  case (reach_step n c p d)
  have "ok (step c d)" using reach_step.hyps(2) assms(2) by blast
  with reach_step.IH show ?case by (rule reach.reach_step)
qed

lemma reach_fill_bounds:
  assumes "reach (fill_ok g) seeds b n c p"
  shows "c \<in> fst ` seeds \<or> in_bounds g c"
  using assms
proof (induction rule: reach.induct)
  case (reach_seed c p)
  then have "fst (c, p) \<in> fst ` seeds" by (rule imageI)
  then show ?case by simp
next
  case (reach_step n c p d)
  then show ?case by (simp add: fill_ok_def)
qed

lemma count_available_space_ball:
  "count_available_space g sx sy M =
     card {c. \<exists>n\<le>M. \<exists>p. reach (fill_ok g) {((sx, sy), ())} 0 n c p}"
proof -
  have "level_inv (fill_ok g) (set [((sx, sy), ())]) 0 M (\<lambda>c. True)
          (map (\<lambda>(c, p). (c, p, 0)) [((sx, sy), ())]) (fst ` set [((sx, sy), ())]) 0"
    by (rule level_inv_init) simp
  then have inv: "level_inv (fill_ok g) {((sx, sy), ())} 0 M (\<lambda>c. True)
          (map entry2 [(sx, sy, 0)]) {(sx, sy)} 0"
    by simp
  show ?thesis
    unfolding count_available_space_def
    by (rule fill_loop_correct[OF inv]) (simp_all add: fill_cells_def)
qed

lemma count_available_space_antitone:
  assumes "\<forall>c. fill_ok g' c \<longrightarrow> fill_ok g c"
  shows "count_available_space g' sx sy M \<le> count_available_space g sx sy M"
proof -
  let ?B = "\<lambda>g. {c. \<exists>n\<le>M. \<exists>p. reach (fill_ok g) {((sx, sy), ())} 0 n c p}"
  have "?B g \<subseteq> insert (sx, sy) {c. in_bounds g c}"
  proof
    fix c assume "c \<in> ?B g"
    then obtain n p where "reach (fill_ok g) {((sx, sy), ())} 0 n c p" by blast
    from reach_fill_bounds[OF this] show "c \<in> insert (sx, sy) {c. in_bounds g c}" by auto
  qed
  then have "finite (?B g)" by (rule finite_subset) (simp add: finite_in_bounds)
  moreover have "?B g' \<subseteq> ?B g"
  proof
    fix c assume "c \<in> ?B g'"
    then obtain n p where np: "n \<le> M" "reach (fill_ok g') {((sx, sy), ())} 0 n c p" by blast
    from reach_mono[OF np(2) assms] np(1) show "c \<in> ?B g" by blast
  qed
  ultimately have "card (?B g') \<le> card (?B g)" by (intro card_mono)
  then show ?thesis by (simp add: count_available_space_ball)
qed

text \<open>Adding one obstacle cell: one more body segment, at any cell.\<close>

definition add_segment :: "game \<Rightarrow> cell \<Rightarrow> game" where
  "add_segment g c =
     g\<lparr>game_snake := (game_snake g)
         \<lparr>snake_length := snake_length (game_snake g) + 1,
          snake_x := snake_x (game_snake g) @ [fst c],
          snake_y := snake_y (game_snake g) @ [snd c]\<rparr>\<rparr>"

lemma body_hit_add_segment:
  assumes "consistent (game_snake g)" "b \<le> snake_length (game_snake g)"
    and "body_hit (game_snake g) a b px py"
  shows "body_hit (game_snake (add_segment g c)) a (b + k) px py"
proof -
  from assms(3) obtain i where i: "a \<le> i" "i < b"
    "is_collision px py (snake_x (game_snake g) ! i) (snake_y (game_snake g) ! i)"
    by (auto simp: body_hit_def list_ex_iff)
  have "i < length (snake_x (game_snake g))" "i < length (snake_y (game_snake g))"
    using i(2) assms(1,2) by (auto simp: consistent_def)
  then have "is_collision px py (snake_x (game_snake (add_segment g c)) ! i)
               (snake_y (game_snake (add_segment g c)) ! i)"
    using i(3) by (simp add: add_segment_def nth_append)
  then show ?thesis using i(1,2) by (auto simp: body_hit_def list_ex_iff intro!: bexI[of _ i])
qed

lemma c6_ai:
  assumes "consistent (game_snake g)"
  shows "count_available_space (add_segment g c) sx sy M \<le> count_available_space g sx sy M"
proof (rule count_available_space_antitone, intro allI impI)
  fix c' assume f: "fill_ok (add_segment g c) c'"
  have "in_bounds g c'" using f by (simp add: fill_ok_def in_bounds_def add_segment_def)
  moreover have "\<not> body_hit (game_snake g) 0 (snake_length (game_snake g)) (fst c') (snd c')"
  proof
    assume "body_hit (game_snake g) 0 (snake_length (game_snake g)) (fst c') (snd c')"
    from body_hit_add_segment[OF assms le_refl this, of c 1]
    show False using f by (simp add: fill_ok_def add_segment_def)
  qed
  ultimately show "fill_ok g c'" by (simp add: fill_ok_def)
qed

text \<open>
  The fills of reflexagent.py and allagents.py have no depth cap; they stop after 100
  counted cells. Both return the size of the connected component of the start, capped at
  100. For \<open>_bfs_accessible_spaces\<close> the start is always counted; for
  \<open>count_available_space\<close> of allagents.py it is counted only when it is itself
  free.
\<close>

definition accessible_ok :: "game \<Rightarrow> cell \<Rightarrow> bool" where
  "accessible_ok g c \<longleftrightarrow>
     in_bounds g c \<and>
     \<not> segment_at (game_snake g) 1 (snake_length (game_snake g)) (fst c) (snd c)"

definition component :: "(cell \<Rightarrow> bool) \<Rightarrow> (cell \<times> unit) set \<Rightarrow> cell set" where
  "component ok seeds = {c. \<exists>n. reach ok seeds 0 n c ()}"

lemma component_closed:
  assumes "\<forall>c p. (c, p) \<in> seeds \<longrightarrow> c \<in> V"
    and "\<forall>c\<in>V. \<forall>d. ok (step c d) \<longrightarrow> step c d \<in> V"
  shows "component ok seeds \<subseteq> V"
proof
  fix c assume "c \<in> component ok seeds"
  then obtain n where "reach ok seeds 0 n c ()" by (auto simp: component_def)
  then show "c \<in> V"
  proof (induction rule: reach.induct)
    case (reach_seed c p)
    then show ?case using assms(1) by blast
  next
    case (reach_step n c p d)
    then show ?case using assms(2) by blast
  qed
qed

lemma component_step:
  assumes "c \<in> component ok seeds" "ok (step c d)"
  shows "step c d \<in> component ok seeds"
proof -
  from assms(1) obtain n where "reach ok seeds 0 n c ()" by (auto simp: component_def)
  then have "reach ok seeds 0 (Suc n) (step c d) ()" using assms(2) by (rule reach_step)
  then show ?thesis unfolding component_def by blast
qed

lemma component_seed: "(c, ()) \<in> seeds \<Longrightarrow> c \<in> component ok seeds"
  unfolding component_def by (blast intro: reach_seed)

lemma component_mono:
  assumes "\<forall>c. ok' c \<longrightarrow> ok c" "seeds' \<subseteq> seeds"
  shows "component ok' seeds' \<subseteq> component ok seeds"
proof (rule component_closed)
  show "\<forall>c p. (c, p) \<in> seeds' \<longrightarrow> c \<in> component ok seeds"
    using assms(2) component_seed[of _ seeds ok] by auto
  show "\<forall>c\<in>component ok seeds. \<forall>d. ok' (step c d) \<longrightarrow> step c d \<in> component ok seeds"
    using assms(1) component_step[of _ ok seeds] by blast
qed

lemma component_bounds:
  assumes "\<forall>c. ok c \<longrightarrow> in_bounds g c"
  shows "component ok seeds \<subseteq> fst ` seeds \<union> {c. in_bounds g c}"
proof
  fix c assume "c \<in> component ok seeds"
  then obtain n where "reach ok seeds 0 n c ()" by (auto simp: component_def)
  then show "c \<in> fst ` seeds \<union> {c. in_bounds g c}"
  proof (induction rule: reach.induct)
    case (reach_seed c p)
    then have "fst (c, p) \<in> fst ` seeds" by (rule imageI)
    then show ?case by simp
  next
    case (reach_step n c p d)
    then have "in_bounds g (step c d)" using assms by blast
    then show ?case by simp
  qed
qed

lemma capped_card_mono:
  assumes "\<forall>c. ok' c \<longrightarrow> ok c" "seeds' \<subseteq> seeds" "finite seeds" "\<forall>c. ok c \<longrightarrow> in_bounds g c"
  shows "min m (card (component ok' seeds')) \<le> min m (card (component ok seeds))"
proof -
  have "finite (fst ` seeds \<union> {c. in_bounds g c})"
    using assms(3) by (simp add: finite_in_bounds)
  then have "finite (component ok seeds)"
    using component_bounds[OF assms(4), of seeds] by (rule rev_finite_subset)
  then have "card (component ok' seeds') \<le> card (component ok seeds)"
    using component_mono[OF assms(1,2)] by (intro card_mono)
  then show ?thesis by (rule min.mono[OF order_refl])
qed

lemma all_directions_rldu: "d \<in> set directions_rldu"
  by (cases d) (simp_all add: directions_rldu_def)

lemma accessible_neighbours_result:
  "\<exists>news. accessible_neighbours g cur ds (q, V) = (q @ news, V \<union> set news) \<and>
     distinct news \<and> set news \<inter> V = {} \<and>
     (\<forall>c\<in>set news. accessible_ok g c \<and> (\<exists>d. c = step cur d)) \<and>
     (\<forall>d\<in>set ds. accessible_ok g (step cur d) \<longrightarrow> step cur d \<in> V \<union> set news)"
proof (induction ds arbitrary: q V)
  case Nil
  show ?case by (rule exI[of _ "[]"]) simp
next
  case (Cons d ds)
  let ?n = "step cur d"
  show ?case
  proof (cases "?n \<in> V \<or> \<not> accessible_ok g ?n")
    case True
    from Cons.IH[of q V] obtain news where
      n: "accessible_neighbours g cur ds (q, V) = (q @ news, V \<union> set news)"
      "distinct news" "set news \<inter> V = {}"
      "\<forall>c\<in>set news. accessible_ok g c \<and> (\<exists>d. c = step cur d)"
      "\<forall>d\<in>set ds. accessible_ok g (step cur d) \<longrightarrow> step cur d \<in> V \<union> set news"
      by blast
    have "accessible_neighbours g cur (d # ds) (q, V) = accessible_neighbours g cur ds (q, V)"
      using True by (auto simp: Let_def accessible_ok_def)
    then show ?thesis using n True by (intro exI[of _ news]) auto
  next
    case False
    from Cons.IH[of "q @ [?n]" "insert ?n V"] obtain news where
      n: "accessible_neighbours g cur ds (q @ [?n], insert ?n V) =
            ((q @ [?n]) @ news, insert ?n V \<union> set news)"
      "distinct news" "set news \<inter> insert ?n V = {}"
      "\<forall>c\<in>set news. accessible_ok g c \<and> (\<exists>d. c = step cur d)"
      "\<forall>d\<in>set ds. accessible_ok g (step cur d) \<longrightarrow> step cur d \<in> insert ?n V \<union> set news"
      by blast
    have "accessible_neighbours g cur (d # ds) (q, V) =
            accessible_neighbours g cur ds (q @ [?n], insert ?n V)"
      using False by (auto simp: Let_def accessible_ok_def)
    then have 1: "accessible_neighbours g cur (d # ds) (q, V) =
        (q @ (?n # news), V \<union> set (?n # news))"
      using n(1) by simp
    have 2: "distinct (?n # news)" using n(2,3) by auto
    have 3: "set (?n # news) \<inter> V = {}" using n(3) False by auto
    have 4: "\<forall>c\<in>set (?n # news). accessible_ok g c \<and> (\<exists>d. c = step cur d)"
      using n(4) False by auto
    have 5: "\<forall>d'\<in>set (d # ds). accessible_ok g (step cur d') \<longrightarrow>
        step cur d' \<in> V \<union> set (?n # news)"
      using n(5) by auto
    show ?thesis using 1 2 3 4 5 by blast
  qed
qed

lemma accessible_loop_correct:
  assumes "\<forall>c p. (c, p) \<in> seeds \<longrightarrow> c \<in> V"
    and "V \<subseteq> component (accessible_ok g) seeds"
    and "set q \<subseteq> V" and "distinct q" and "finite V"
    and "finite (component (accessible_ok g) seeds)"
    and "count = card (V - set q)"
    and "\<forall>c\<in>V - set q. \<forall>d. accessible_ok g (step c d) \<longrightarrow> step c d \<in> V"
    and "count \<le> max_iterations"
  shows "accessible_loop g q V count =
           min max_iterations (card (component (accessible_ok g) seeds))"
  using assms
proof (induction g q V count rule: accessible_loop.induct)
  case (1 g V count)
  have "component (accessible_ok g) seeds \<subseteq> V"
    using "1.prems"(1,8) by (intro component_closed) simp_all
  with "1.prems"(2) have "V = component (accessible_ok g) seeds" by blast
  moreover have "count = card V" using "1.prems"(7) by simp
  ultimately show ?case using "1.prems"(9) by simp
next
  case (2 g cur queue V count)
  let ?C = "component (accessible_ok g) seeds"
  have dq: "distinct queue" "cur \<notin> set queue" using "2.prems"(4) by simp_all
  have sub: "set queue \<subseteq> V" "cur \<in> V" using "2.prems"(3) by simp_all
  have fin: "finite V" by fact
  have "count = card (V - insert cur (set queue))" using "2.prems"(7) by simp
  then have cnt: "count + 1 = card (V - set queue)"
    by (rule card_pop[OF fin sub(2) dq(2)])
  show ?case
  proof (cases "count < max_iterations")
    case False
    then have c: "count = max_iterations" using "2.prems"(9) by simp
    have "card (V - set (cur # queue)) \<le> card V" using fin by (intro card_mono) auto
    also have "\<dots> \<le> card ?C" using "2.prems"(2,6) by (intro card_mono)
    finally have "max_iterations \<le> card ?C" using "2.prems"(7) c by simp
    then show ?thesis using False c by simp
  next
    case True
    obtain news where
      n: "accessible_neighbours g cur directions_rldu (queue, V) = (queue @ news, V \<union> set news)"
      "distinct news" "set news \<inter> V = {}"
      "\<forall>c\<in>set news. accessible_ok g c \<and> (\<exists>d. c = step cur d)"
      "\<forall>d\<in>set directions_rldu. accessible_ok g (step cur d) \<longrightarrow> step cur d \<in> V \<union> set news"
      using accessible_neighbours_result[of g cur directions_rldu queue V] by blast
    have cov: "\<forall>d. accessible_ok g (step cur d) \<longrightarrow> step cur d \<in> V \<union> set news"
      using n(5) all_directions_rldu by blast
    have n1: "(queue @ news, V \<union> set news) =
        accessible_neighbours g cur directions_rldu (queue, V)"
      using n(1) by simp
    have eq: "accessible_loop g (cur # queue) V count =
        accessible_loop g (queue @ news) (V \<union> set news) (count + 1)"
      using True n(1) by simp
    have p1: "\<forall>c p. (c, p) \<in> seeds \<longrightarrow> c \<in> V \<union> set news" using "2.prems"(1) by blast
    have curC: "cur \<in> ?C" using sub(2) "2.prems"(2) by blast
    have "set news \<subseteq> ?C"
    proof
      fix c assume "c \<in> set news"
      with n(4) obtain d where "accessible_ok g c" "c = step cur d" by blast
      then show "c \<in> ?C" using component_step[OF curC, of d] by simp
    qed
    then have p2: "V \<union> set news \<subseteq> ?C" using "2.prems"(2) by blast
    have p3: "set (queue @ news) \<subseteq> V \<union> set news" using sub(1) by auto
    have p4: "distinct (queue @ news)" using dq(1) n(2,3) sub(1) by auto
    have p5: "finite (V \<union> set news)" using fin by simp
    have de: "(V \<union> set news) - set (queue @ news) = V - set queue"
      using diff_expand[OF n(3), of "set queue"] by simp
    have p7: "count + 1 = card ((V \<union> set news) - set (queue @ news))"
      using cnt unfolding de .
    have p8: "\<forall>c\<in>(V \<union> set news) - set (queue @ news). \<forall>d.
        accessible_ok g (step c d) \<longrightarrow> step c d \<in> V \<union> set news"
    proof (intro ballI allI impI)
      fix c d assume c: "c \<in> (V \<union> set news) - set (queue @ news)"
        and ok: "accessible_ok g (step c d)"
      from c have cV: "c \<in> V" "c \<notin> set queue" unfolding de by simp_all
      show "step c d \<in> V \<union> set news"
      proof (cases "c = cur")
        case True
        then show ?thesis using cov ok by blast
      next
        case False
        then have "c \<in> V - set (cur # queue)" using cV by simp
        then show ?thesis using "2.prems"(8) ok by blast
      qed
    qed
    have p9: "count + 1 \<le> max_iterations" using True by simp
    show ?thesis unfolding eq
      by (rule "2.IH"[OF True n1 p1 p2 p3 p4 p5 "2.prems"(6) p7 p8 p9])
  qed
qed

lemma accessible_ok_bounds: "\<forall>c. accessible_ok g c \<longrightarrow> in_bounds g c"
  by (simp add: accessible_ok_def)

lemma finite_component:
  assumes "\<forall>c. ok c \<longrightarrow> in_bounds g c" "finite seeds"
  shows "finite (component ok seeds)"
proof -
  have "finite (fst ` seeds \<union> {c. in_bounds g c})"
    using assms(2) by (simp add: finite_in_bounds)
  then show ?thesis
    using component_bounds[OF assms(1), of seeds] by (rule rev_finite_subset)
qed

lemma bfs_accessible_spaces_component:
  "bfs_accessible_spaces g sx sy =
     min max_iterations (card (component (accessible_ok g) {((sx, sy), ())}))"
  unfolding bfs_accessible_spaces_def
proof (rule accessible_loop_correct)
  show "{(sx, sy)} \<subseteq> component (accessible_ok g) {((sx, sy), ())}"
    using component_seed[of "(sx, sy)" "{((sx, sy), ())}" "accessible_ok g"] by simp
  show "finite (component (accessible_ok g) {((sx, sy), ())})"
    by (rule finite_component[OF accessible_ok_bounds]) simp
qed simp_all


definition stack_ok :: "game \<Rightarrow> cell \<Rightarrow> bool" where
  "stack_ok g c \<longleftrightarrow>
     in_bounds g c \<and>
     \<not> segment_at (game_snake g) 0 (snake_length (game_snake g) - 1) (fst c) (snd c)"

definition stack_seeds :: "game \<Rightarrow> cell \<Rightarrow> (cell \<times> unit) set" where
  "stack_seeds g start = (if stack_ok g start then {(start, ())} else {})"

lemma stack_ok_bounds: "\<forall>c. stack_ok g c \<longrightarrow> in_bounds g c"
  by (simp add: stack_ok_def)

lemma in_set_butlast_or_last:
  assumes "stack \<noteq> []" "x \<in> set stack"
  shows "x = last stack \<or> x \<in> set (butlast stack)"
proof -
  have "stack = butlast stack @ [last stack]" using assms(1) by simp
  then have "set stack = set (butlast stack) \<union> {last stack}"
    by (metis set_append list.set(1) list.set(2))
  then show ?thesis using assms(2) by blast
qed

declare stack_loop.simps [simp del]

lemma stack_loop_skip:
  assumes "stack \<noteq> []" "count < 100"
    and "last stack \<in> V \<or> \<not> stack_ok g (last stack)"
  shows "stack_loop g stack V count = stack_loop g (butlast stack) V count"
  using assms by (subst stack_loop.simps) (auto simp: stack_ok_def in_bounds_def)

lemma stack_loop_visit:
  assumes "stack \<noteq> []" "count < 100" "last stack \<notin> V" "stack_ok g (last stack)"
  shows "stack_loop g stack V count =
     stack_loop g
       (butlast stack @ filter (\<lambda>next_pos. next_pos \<notin> insert (last stack) V)
          (map (step (last stack)) directions_rldu))
       (insert (last stack) V) (count + 1)"
  using assms by (subst stack_loop.simps) (auto simp: stack_ok_def in_bounds_def)

lemma stack_loop_stop:
  assumes "stack = [] \<or> \<not> count < 100"
  shows "stack_loop g stack V count = count"
  using assms by (subst stack_loop.simps) auto

lemma stack_loop_correct:
  assumes "V \<subseteq> component (stack_ok g) seeds"
    and "finite V" and "count = card V"
    and "\<forall>c\<in>V. \<forall>d. stack_ok g (step c d) \<longrightarrow> step c d \<in> V \<union> set stack"
    and "\<forall>c p. (c, p) \<in> seeds \<longrightarrow> c \<in> V \<union> set stack"
    and "\<forall>c\<in>set stack. stack_ok g c \<longrightarrow> c \<in> component (stack_ok g) seeds"
    and "finite (component (stack_ok g) seeds)"
    and "count \<le> 100"
    and "\<forall>c p. (c, p) \<in> seeds \<longrightarrow> stack_ok g c"
  shows "stack_loop g stack V count = min 100 (card (component (stack_ok g) seeds))"
  using assms
proof (induction g stack V count rule: stack_loop.induct)
  case (1 g stack V count)
  let ?C = "component (stack_ok g) seeds"
  note P = "1.prems"
  show ?case
  proof (cases "stack \<noteq> [] \<and> count < 100")
    case False
    have stop: "stack_loop g stack V count = count"
      using False by (intro stack_loop_stop) blast
    show ?thesis
    proof (cases "stack = []")
      case True
      have "?C \<subseteq> V" using P(4,5) True by (intro component_closed) simp_all
      with P(1) have "V = ?C" by blast
      then show ?thesis using stop P(3,8) by simp
    next
      case False
      with \<open>\<not> (stack \<noteq> [] \<and> count < 100)\<close> P(8) have c: "count = 100" by simp
      have "card V \<le> card ?C" using P(1,7) by (intro card_mono)
      then show ?thesis using stop c P(3) by simp
    qed
  next
    case True
    then have ne: "stack \<noteq> []" and lt: "count < 100" by simp_all
    let ?cur = "last stack"
    let ?rest = "butlast stack"
    note mem = in_set_butlast_or_last[OF ne]
    have rest_sub: "set ?rest \<subseteq> set stack" by (auto dest: in_set_butlastD)
    have cur_in: "?cur \<in> set stack" using ne by simp
    show ?thesis
    proof (cases "?cur \<in> V \<or> \<not> stack_ok g ?cur")
      case skip: True
      have eq: "stack_loop g stack V count = stack_loop g ?rest V count"
        by (rule stack_loop_skip[OF ne lt skip])
      have p4: "\<forall>c\<in>V. \<forall>d. stack_ok g (step c d) \<longrightarrow> step c d \<in> V \<union> set ?rest"
      proof (intro ballI allI impI)
        fix c d assume "c \<in> V" "stack_ok g (step c d)"
        with P(4) have "step c d \<in> V \<union> set stack" by blast
        then show "step c d \<in> V \<union> set ?rest"
          using mem[of "step c d"] skip \<open>stack_ok g (step c d)\<close> by auto
      qed
      have p5: "\<forall>c p. (c, p) \<in> seeds \<longrightarrow> c \<in> V \<union> set ?rest"
      proof (intro allI impI)
        fix c p assume s: "(c, p) \<in> seeds"
        with P(5) have "c \<in> V \<union> set stack" by blast
        moreover have "stack_ok g c" using s P(9) by blast
        ultimately show "c \<in> V \<union> set ?rest" using mem[of c] skip by auto
      qed
      have p6: "\<forall>c\<in>set ?rest. stack_ok g c \<longrightarrow> c \<in> ?C" using P(6) rest_sub by blast
      show ?thesis
      proof (cases "?cur \<in> V")
        case True
        show ?thesis unfolding eq
          by (rule "1.IH"(1)[OF \<open>stack \<noteq> [] \<and> count < 100\<close> True P(1,2,3) p4 p5 p6 P(7,8,9)])
      next
        case nv: False
        with skip have nok: "\<not> stack_ok g ?cur" by blast
        show ?thesis
        proof (cases "fst ?cur < 0 \<or> fst ?cur \<ge> screen_width g \<or>
                snd ?cur < 0 \<or> snd ?cur \<ge> screen_height g")
          case True
          show ?thesis unfolding eq
            by (rule "1.IH"(2)[OF \<open>stack \<noteq> [] \<and> count < 100\<close> nv True P(1,2,3) p4 p5 p6 P(7,8,9)])
        next
          case False
          then have "in_bounds g ?cur" by (auto simp: in_bounds_def)
          with nok have seg: "segment_at (game_snake g) 0 (snake_length (game_snake g) - 1)
                  (fst ?cur) (snd ?cur)"
            by (simp add: stack_ok_def)
          show ?thesis unfolding eq
            by (rule "1.IH"(3)[OF \<open>stack \<noteq> [] \<and> count < 100\<close> nv False seg P(1,2,3) p4 p5 p6 P(7,8,9)])
        qed
      qed
    next
      case visit: False
      then have nv: "?cur \<notin> V" and ok: "stack_ok g ?cur" by simp_all
      let ?push = "filter (\<lambda>next_pos. next_pos \<notin> insert ?cur V) (map (step ?cur) directions_rldu)"
      have eq: "stack_loop g stack V count =
          stack_loop g (?rest @ ?push) (insert ?cur V) (count + 1)"
        by (rule stack_loop_visit[OF ne lt nv ok])
      have curC: "?cur \<in> ?C" using P(6) cur_in ok by blast
      have p1: "insert ?cur V \<subseteq> ?C" using P(1) curC by simp
      have p2: "finite (insert ?cur V)" using P(2) by simp
      have p3: "count + 1 = card (insert ?cur V)" using P(2,3) nv by simp
      have p4: "\<forall>c\<in>insert ?cur V. \<forall>d. stack_ok g (step c d) \<longrightarrow>
          step c d \<in> insert ?cur V \<union> set (?rest @ ?push)"
      proof (intro ballI allI impI)
        fix c d assume c: "c \<in> insert ?cur V" and sok: "stack_ok g (step c d)"
        show "step c d \<in> insert ?cur V \<union> set (?rest @ ?push)"
        proof (cases "c = ?cur")
          case True
          have "step ?cur d \<in> set (map (step ?cur) directions_rldu)"
            using all_directions_rldu[of d] by simp
          then show ?thesis unfolding True by auto
        next
          case False
          with c have "c \<in> V" by simp
          with P(4) sok have "step c d \<in> V \<union> set stack" by blast
          then show ?thesis using mem[of "step c d"] by auto
        qed
      qed
      have p5: "\<forall>c p. (c, p) \<in> seeds \<longrightarrow> c \<in> insert ?cur V \<union> set (?rest @ ?push)"
      proof (intro allI impI)
        fix c p assume "(c, p) \<in> seeds"
        with P(5) have "c \<in> V \<union> set stack" by blast
        then show "c \<in> insert ?cur V \<union> set (?rest @ ?push)" using mem[of c] by auto
      qed
      have p6: "\<forall>c\<in>set (?rest @ ?push). stack_ok g c \<longrightarrow> c \<in> ?C"
      proof (intro ballI impI)
        fix c assume c: "c \<in> set (?rest @ ?push)" and cok: "stack_ok g c"
        then consider "c \<in> set ?rest" | "c \<in> set ?push" by auto
        then show "c \<in> ?C"
        proof cases
          case 1
          then show ?thesis using P(6) rest_sub cok by blast
        next
          case 2
          then obtain d where "c = step ?cur d" by auto
          then show ?thesis using component_step[OF curC, of d] cok by simp
        qed
      qed
      have p8: "count + 1 \<le> 100" using lt by simp
      have nseg: "\<not> segment_at (game_snake g) 0 (snake_length (game_snake g) - 1)
                  (fst ?cur) (snd ?cur)"
        using ok by (simp add: stack_ok_def)
      have nb: "\<not> (fst ?cur < 0 \<or> fst ?cur \<ge> screen_width g \<or>
                snd ?cur < 0 \<or> snd ?cur \<ge> screen_height g)"
        using ok by (auto simp: stack_ok_def in_bounds_def)
      show ?thesis unfolding eq
        by (rule "1.IH"(4)[OF \<open>stack \<noteq> [] \<and> count < 100\<close> nv nb nseg p1 p2 p3 p4 p5 p6 P(7) p8 P(9)])
    qed
  qed
qed


lemma GoalBasedAgent_count_available_space_component:
  "GoalBasedAgent_count_available_space g x y =
     min 100 (card (component (stack_ok g) (stack_seeds g (x, y))))"
  unfolding GoalBasedAgent_count_available_space_def
proof (rule stack_loop_correct)
  show "finite (component (stack_ok g) (stack_seeds g (x, y)))"
    by (rule finite_component[OF stack_ok_bounds]) (simp add: stack_seeds_def)
  show "\<forall>c p. (c, p) \<in> stack_seeds g (x, y) \<longrightarrow> c \<in> {} \<union> set [(x, y)]"
    by (simp add: stack_seeds_def)
  show "\<forall>c p. (c, p) \<in> stack_seeds g (x, y) \<longrightarrow> stack_ok g c"
    by (simp add: stack_seeds_def)
  show "\<forall>c\<in>set [(x, y)]. stack_ok g c \<longrightarrow> c \<in> component (stack_ok g) (stack_seeds g (x, y))"
  proof (intro ballI impI)
    fix c assume "c \<in> set [(x, y)]" "stack_ok g c"
    then have "(c, ()) \<in> stack_seeds g (x, y)" by (simp add: stack_seeds_def)
    then show "c \<in> component (stack_ok g) (stack_seeds g (x, y))" by (rule component_seed)
  qed
qed simp_all

lemma segment_at_add_segment:
  assumes "consistent (game_snake g)" "b \<le> snake_length (game_snake g)" "b \<le> b'"
    and "segment_at (game_snake g) a b px py"
  shows "segment_at (game_snake (add_segment g c)) a b' px py"
proof -
  from assms(4) obtain i where i: "a \<le> i" "i < b"
    "px = snake_x (game_snake g) ! i" "py = snake_y (game_snake g) ! i"
    by (auto simp: segment_at_def list_ex_iff)
  have "i < length (snake_x (game_snake g))" "i < length (snake_y (game_snake g))"
    using i(2) assms(1,2) by (auto simp: consistent_def)
  then have "px = snake_x (game_snake (add_segment g c)) ! i"
       "py = snake_y (game_snake (add_segment g c)) ! i"
    using i(3,4) by (simp_all add: add_segment_def nth_append)
  then show ?thesis using i(1,2) assms(3)
    by (auto simp: segment_at_def list_ex_iff intro!: bexI[of _ i])
qed

lemma in_bounds_add_segment: "in_bounds (add_segment g c) c' = in_bounds g c'"
  by (simp add: in_bounds_def add_segment_def)

lemma accessible_ok_add_segment:
  assumes "consistent (game_snake g)"
  shows "\<forall>c'. accessible_ok (add_segment g c) c' \<longrightarrow> accessible_ok g c'"
proof (intro allI impI)
  fix c' assume f: "accessible_ok (add_segment g c) c'"
  have "\<not> segment_at (game_snake g) 1 (snake_length (game_snake g)) (fst c') (snd c')"
  proof
    assume "segment_at (game_snake g) 1 (snake_length (game_snake g)) (fst c') (snd c')"
    from segment_at_add_segment[OF assms le_refl _ this, of "snake_length (game_snake g) + 1" c]
    show False using f by (simp add: accessible_ok_def add_segment_def)
  qed
  then show "accessible_ok g c'"
    using f by (simp add: accessible_ok_def in_bounds_add_segment)
qed

lemma stack_ok_add_segment:
  assumes "consistent (game_snake g)"
  shows "\<forall>c'. stack_ok (add_segment g c) c' \<longrightarrow> stack_ok g c'"
proof (intro allI impI)
  fix c' assume f: "stack_ok (add_segment g c) c'"
  have "\<not> segment_at (game_snake g) 0 (snake_length (game_snake g) - 1) (fst c') (snd c')"
  proof
    assume "segment_at (game_snake g) 0 (snake_length (game_snake g) - 1) (fst c') (snd c')"
    from segment_at_add_segment[OF assms _ _ this, of "snake_length (game_snake g)" c]
    show False using f by (simp add: stack_ok_def add_segment_def)
  qed
  then show "stack_ok g c'"
    using f by (simp add: stack_ok_def in_bounds_add_segment)
qed

lemma c6_reflexagent:
  assumes "consistent (game_snake g)"
  shows "bfs_accessible_spaces (add_segment g c) sx sy \<le> bfs_accessible_spaces g sx sy"
  unfolding bfs_accessible_spaces_component
  by (rule capped_card_mono[OF accessible_ok_add_segment[OF assms] subset_refl _
        accessible_ok_bounds]) simp

lemma c6_allagents:
  assumes "consistent (game_snake g)"
  shows "GoalBasedAgent_count_available_space (add_segment g c) sx sy
           \<le> GoalBasedAgent_count_available_space g sx sy"
  unfolding GoalBasedAgent_count_available_space_component
proof (rule capped_card_mono[OF stack_ok_add_segment[OF assms] _ _ stack_ok_bounds])
  show "stack_seeds (add_segment g c) (sx, sy) \<subseteq> stack_seeds g (sx, sy)"
    using stack_ok_add_segment[OF assms, of c] by (auto simp: stack_seeds_def)
  show "finite (stack_seeds g (sx, sy))" by (simp add: stack_seeds_def)
qed

text \<open>
  C6. On a consistent snake one more body segment, wherever it lies, never increases the
  count from a fixed start, for each of the three flood fills:
  \<open>_count_available_space\<close> of ai.py (the cells within \<open>max_depth\<close> steps, for every
  depth cap), \<open>_bfs_accessible_spaces\<close> of reflexagent.py and
  \<open>count_available_space\<close> of allagents.py (the component of the start, capped at
  100 cells).
\<close>

theorem flood_fill_antitone:
  assumes "consistent (game_snake g)"
  shows "count_available_space (add_segment g c) sx sy M \<le> count_available_space g sx sy M \<and>
     bfs_accessible_spaces (add_segment g c) sx sy \<le> bfs_accessible_spaces g sx sy \<and>
     GoalBasedAgent_count_available_space (add_segment g c) sx sy
       \<le> GoalBasedAgent_count_available_space g sx sy"
  using assms by (intro conjI c6_ai c6_reflexagent c6_allagents)

theorem flood_fill_antitone_witness:
  "consistent (game_snake \<lparr>screen_width = 1000, screen_height = 800,
      game_snake = \<lparr>snake_direction = Right, snake_length = 2,
                     snake_x = [400, 360], snake_y = [400, 400]\<rparr>,
      apple_x = 120, apple_y = 120\<rparr>) \<and>
   count_available_space
     (add_segment \<lparr>screen_width = 1000, screen_height = 800,
        game_snake = \<lparr>snake_direction = Right, snake_length = 2,
                       snake_x = [400, 360], snake_y = [400, 400]\<rparr>,
        apple_x = 120, apple_y = 120\<rparr> (440, 360)) 440 400 8
   \<le> count_available_space
     \<lparr>screen_width = 1000, screen_height = 800,
      game_snake = \<lparr>snake_direction = Right, snake_length = 2,
                     snake_x = [400, 360], snake_y = [400, 400]\<rparr>,
      apple_x = 120, apple_y = 120\<rparr> 440 400 8 \<and>
   bfs_accessible_spaces
     (add_segment \<lparr>screen_width = 1000, screen_height = 800,
        game_snake = \<lparr>snake_direction = Right, snake_length = 2,
                       snake_x = [400, 360], snake_y = [400, 400]\<rparr>,
        apple_x = 120, apple_y = 120\<rparr> (440, 360)) 440 400
   \<le> bfs_accessible_spaces
     \<lparr>screen_width = 1000, screen_height = 800,
      game_snake = \<lparr>snake_direction = Right, snake_length = 2,
                     snake_x = [400, 360], snake_y = [400, 400]\<rparr>,
      apple_x = 120, apple_y = 120\<rparr> 440 400 \<and>
   GoalBasedAgent_count_available_space
     (add_segment \<lparr>screen_width = 1000, screen_height = 800,
        game_snake = \<lparr>snake_direction = Right, snake_length = 2,
                       snake_x = [400, 360], snake_y = [400, 400]\<rparr>,
        apple_x = 120, apple_y = 120\<rparr> (440, 360)) 440 400
   \<le> GoalBasedAgent_count_available_space
     \<lparr>screen_width = 1000, screen_height = 800,
      game_snake = \<lparr>snake_direction = Right, snake_length = 2,
                     snake_x = [400, 360], snake_y = [400, 400]\<rparr>,
      apple_x = 120, apple_y = 120\<rparr> 440 400"
proof -
  let ?g = "\<lparr>screen_width = 1000, screen_height = 800,
      game_snake = \<lparr>snake_direction = Right, snake_length = 2,
                     snake_x = [400, 360], snake_y = [400, 400]\<rparr>,
      apple_x = 120, apple_y = 120\<rparr>"
  have c: "consistent (game_snake ?g)" by (simp add: consistent_def)
  from flood_fill_antitone[OF c, of "(440, 360)" 440 400 8] c show ?thesis by blast
qed

end
